theory Spec2Isabelle
  imports Main
begin

section \<open>Python values\<close>

text \<open>
  A Python \<open>str\<close> is a sequence of code points, each below \<open>0x110000\<close>; lone surrogates
  are allowed in a \<open>str\<close>. A file holds bytes, written as a \<open>string\<close>.
  \<open>ascii\<close> reads an ASCII literal as a \<open>str\<close>.
\<close>

type_synonym pystr = "nat list"

definition ascii :: "string \<Rightarrow> pystr" where
  "ascii s = map of_char s"

text \<open>
  The values \<open>json.load\<close> returns and \<open>json.dump\<close> accepts in this program: \<open>None\<close>,
  \<open>bool\<close>, \<open>int\<close>, \<open>float\<close>, \<open>str\<close>, \<open>list\<close> and \<open>dict\<close> with \<open>str\<close> keys. A \<open>dict\<close> keeps
  its keys in insertion order and holds each key once; it is an association list.
  Binary floating point is not modelled: a \<open>float\<close> is carried as a decimal literal that
  denotes it (or \<open>NaN\<close>, \<open>Infinity\<close>, \<open>-Infinity\<close>).
\<close>

datatype json =
    JNull
  | JBool bool
  | JInt int
  | JFloat pystr
  | JStr pystr
  | JList "json list"
  | JObj "(pystr \<times> json) list"

datatype exn =
    JSONDecodeError
  | UnicodeDecodeError
  | ValueError
  | FileNotFoundError
  | KeyError
  | TypeError

text \<open>The classes named in the \<open>except\<close> clauses; \<open>IOError\<close> is \<open>OSError\<close>.\<close>

datatype exn_class = CJSONDecodeError | CIOError | CValueError

fun isinstance :: "exn \<Rightarrow> exn_class \<Rightarrow> bool" where
  "isinstance JSONDecodeError CJSONDecodeError = True"
| "isinstance JSONDecodeError CValueError = True"
| "isinstance UnicodeDecodeError CValueError = True"
| "isinstance ValueError CValueError = True"
| "isinstance FileNotFoundError CIOError = True"
| "isinstance _ _ = False"

section \<open>The text layer: strict UTF-8 decoding\<close>

text \<open>
  \<open>open(path, 'r', encoding="utf-8")\<close> followed by \<open>read()\<close> decodes the bytes of the file
  strictly: an overlong form, an encoded surrogate, a value above \<open>0x10FFFF\<close> or a
  truncated sequence raises \<open>UnicodeDecodeError\<close> (here \<open>None\<close>).
\<close>

definition is_cont :: "nat \<Rightarrow> bool" where
  "is_cont b = (0x80 \<le> b \<and> b \<le> 0xBF)"

fun utf8_decode_nat :: "nat list \<Rightarrow> pystr option" where
  "utf8_decode_nat [] = Some []"
| "utf8_decode_nat (b0 # bs) =
    (if b0 < 0x80 then map_option (Cons b0) (utf8_decode_nat bs)
     else if 0xC2 \<le> b0 \<and> b0 \<le> 0xDF then
       (case bs of
          b1 # r \<Rightarrow>
            if is_cont b1
            then map_option (Cons ((b0 - 0xC0) * 64 + (b1 - 0x80))) (utf8_decode_nat r)
            else None
        | _ \<Rightarrow> None)
     else if 0xE0 \<le> b0 \<and> b0 \<le> 0xEF then
       (case bs of
          b1 # b2 # r \<Rightarrow>
            if (if b0 = 0xE0 then 0xA0 else 0x80) \<le> b1
               \<and> b1 \<le> (if b0 = 0xED then 0x9F else 0xBF) \<and> is_cont b2
            then map_option
                   (Cons ((b0 - 0xE0) * 4096 + (b1 - 0x80) * 64 + (b2 - 0x80)))
                   (utf8_decode_nat r)
            else None
        | _ \<Rightarrow> None)
     else if 0xF0 \<le> b0 \<and> b0 \<le> 0xF4 then
       (case bs of
          b1 # b2 # b3 # r \<Rightarrow>
            if (if b0 = 0xF0 then 0x90 else 0x80) \<le> b1
               \<and> b1 \<le> (if b0 = 0xF4 then 0x8F else 0xBF) \<and> is_cont b2 \<and> is_cont b3
            then map_option
                   (Cons ((b0 - 0xF0) * 262144 + (b1 - 0x80) * 4096
                          + (b2 - 0x80) * 64 + (b3 - 0x80)))
                   (utf8_decode_nat r)
            else None
        | _ \<Rightarrow> None)
     else None)"

definition utf8_decode :: "string \<Rightarrow> pystr option" where
  "utf8_decode bytes = utf8_decode_nat (map of_char bytes)"

section \<open>\<open>json.loads\<close>: tokens\<close>

datatype token =
    TLBrace | TRBrace | TLBrack | TRBrack | TComma | TColon
  | TStr pystr | TInt int | TFloat pystr | TNull | TTrue | TFalse

definition is_ws :: "nat \<Rightarrow> bool" where
  "is_ws c = (c = 0x20 \<or> c = 0x09 \<or> c = 0x0A \<or> c = 0x0D)"

definition is_digit :: "nat \<Rightarrow> bool" where
  "is_digit c = (0x30 \<le> c \<and> c \<le> 0x39)"

definition hexval :: "nat \<Rightarrow> nat option" where
  "hexval c =
    (if 0x30 \<le> c \<and> c \<le> 0x39 then Some (c - 0x30)
     else if 0x41 \<le> c \<and> c \<le> 0x46 then Some (c - 0x37)
     else if 0x61 \<le> c \<and> c \<le> 0x66 then Some (c - 0x57)
     else None)"

text \<open>The four hexadecimal digits of a \<open>\uXXXX\<close> escape, at the head of the input.\<close>

definition decode_uXXXX :: "pystr \<Rightarrow> nat option" where
  "decode_uXXXX s =
    (case s of
       a # b # c # d # _ \<Rightarrow>
         (case (hexval a, hexval b, hexval c, hexval d) of
            (Some x3, Some x2, Some x1, Some x0) \<Rightarrow> Some (((x3 * 16 + x2) * 16 + x1) * 16 + x0)
          | _ \<Rightarrow> None)
     | _ \<Rightarrow> None)"

definition is_high_surrogate :: "nat \<Rightarrow> bool" where
  "is_high_surrogate u = (0xD800 \<le> u \<and> u \<le> 0xDBFF)"

definition is_low_surrogate :: "nat \<Rightarrow> bool" where
  "is_low_surrogate u = (0xDC00 \<le> u \<and> u \<le> 0xDFFF)"

text \<open>The one-letter escapes: \<open>\"\<close>, \<open>\\\<close>, \<open>\/\<close>, \<open>\b\<close>, \<open>\f\<close>, \<open>\n\<close>, \<open>\r\<close>, \<open>\t\<close>.\<close>

definition unescape :: "nat \<Rightarrow> nat option" where
  "unescape e =
    (if e = 0x22 then Some 0x22
     else if e = 0x5C then Some 0x5C
     else if e = 0x2F then Some 0x2F
     else if e = 0x62 then Some 0x08
     else if e = 0x66 then Some 0x0C
     else if e = 0x6E then Some 0x0A
     else if e = 0x72 then Some 0x0D
     else if e = 0x74 then Some 0x09
     else None)"

text \<open>
  \<open>scanstring\<close> in strict mode, from the character after the opening quote: the decoded
  string and the input after the closing quote. A \<open>\uXXXX\<close> escape of a high surrogate
  that is followed by a \<open>\uXXXX\<close> escape of a low surrogate is one code point.
\<close>

function scan_string :: "pystr \<Rightarrow> (pystr \<times> pystr) option" where
  "scan_string [] = None"
| "scan_string (c # s) =
    (if c = 0x22 then Some ([], s)
     else if c = 0x5C then
       (case s of
          [] \<Rightarrow> None
        | e # s1 \<Rightarrow>
            if e = 0x75 then
              (case decode_uXXXX s1 of
                 None \<Rightarrow> None
               | Some uni \<Rightarrow>
                   (case (if is_high_surrogate uni \<and> take 2 (drop 4 s1) = [0x5C, 0x75]
                          then decode_uXXXX (drop 6 s1) else None) of
                      None \<Rightarrow>
                        map_option (\<lambda>(str, r). (uni # str, r)) (scan_string (drop 4 s1))
                    | Some uni2 \<Rightarrow>
                        if is_low_surrogate uni2
                        then map_option
                               (\<lambda>(str, r).
                                  ((0x10000 + ((uni - 0xD800) * 1024 + (uni2 - 0xDC00))) # str, r))
                               (scan_string (drop 10 s1))
                        else map_option (\<lambda>(str, r). (uni # str, r)) (scan_string (drop 4 s1))))
            else
              (case unescape e of
                 None \<Rightarrow> None
               | Some ch \<Rightarrow> map_option (\<lambda>(str, r). (ch # str, r)) (scan_string s1)))
     else if c < 0x20 then None
     else map_option (\<lambda>(str, r). (c # str, r)) (scan_string s))"
  by pat_completeness auto
termination
  by (relation "measure length") auto

text \<open>
  A number is the longest match of \<open>-?(0|[1-9][0-9]*)(\.[0-9]+)?([eE][-+]?[0-9]+)?\<close>: an
  \<open>int\<close> when it has neither fraction nor exponent, a \<open>float\<close> otherwise.
\<close>

fun nat_of_digits :: "nat \<Rightarrow> pystr \<Rightarrow> nat" where
  "nat_of_digits acc [] = acc"
| "nat_of_digits acc (d # ds) = nat_of_digits (acc * 10 + (d - 0x30)) ds"

definition scan_int_part :: "pystr \<Rightarrow> (pystr \<times> pystr) option" where
  "scan_int_part s =
    (case s of
       [] \<Rightarrow> None
     | c # r \<Rightarrow>
         if c = 0x30 then Some ([c], r)
         else if 0x31 \<le> c \<and> c \<le> 0x39 then Some (c # takeWhile is_digit r, dropWhile is_digit r)
         else None)"

definition scan_frac :: "pystr \<Rightarrow> pystr \<times> pystr" where
  "scan_frac s =
    (case s of
       c # d # r \<Rightarrow>
         if c = 0x2E \<and> is_digit d
         then (c # d # takeWhile is_digit r, dropWhile is_digit r)
         else ([], s)
     | _ \<Rightarrow> ([], s))"

definition scan_exp :: "pystr \<Rightarrow> pystr \<times> pystr" where
  "scan_exp s =
    (case s of
       [] \<Rightarrow> ([], s)
     | c # r \<Rightarrow>
         if c = 0x65 \<or> c = 0x45 then
           (case r of
              [] \<Rightarrow> ([], s)
            | d # r1 \<Rightarrow>
                if d = 0x2B \<or> d = 0x2D then
                  (case r1 of
                     [] \<Rightarrow> ([], s)
                   | d1 # r2 \<Rightarrow>
                       if is_digit d1
                       then (c # d # d1 # takeWhile is_digit r2, dropWhile is_digit r2)
                       else ([], s))
                else if is_digit d
                then (c # d # takeWhile is_digit r1, dropWhile is_digit r1)
                else ([], s))
         else ([], s))"

definition scan_number :: "pystr \<Rightarrow> (token \<times> pystr) option" where
  "scan_number s =
    (let (sgn, s1) = (case s of [] \<Rightarrow> ([], s) | c # r \<Rightarrow> if c = 0x2D then ([c], r) else ([], s))
     in case scan_int_part s1 of
          None \<Rightarrow> None
        | Some (ip, s2) \<Rightarrow>
            (let (fr, s3) = scan_frac s2; (ex, s4) = scan_exp s3
             in if fr = [] \<and> ex = []
                then Some (TInt (if sgn = [] then int (nat_of_digits 0 ip)
                                 else - int (nat_of_digits 0 ip)), s4)
                else Some (TFloat (sgn @ ip @ fr @ ex), s4)))"

text \<open>A literal word at the head of the input.\<close>

definition starts_with :: "pystr \<Rightarrow> pystr \<Rightarrow> bool" where
  "starts_with w s = (take (length w) s = w)"

text \<open>Every scanner consumes input, so the tokenizer terminates.\<close>

lemma scan_string_shorter:
  "scan_string s = Some (str, r) \<Longrightarrow> length r < length s"
proof (induction "length s" arbitrary: s str r rule: less_induct)
  case less
  show ?case
  proof (cases s)
    case Nil
    with less.prems show ?thesis by simp
  next
    case (Cons c s')
    with less.prems show ?thesis
      by (auto split: if_splits list.splits option.splits dest!: less.hyps [rotated])
  qed
qed

lemma scan_int_part_shorter:
  "scan_int_part s = Some (ip, r) \<Longrightarrow> length r < length s"
  by (auto simp: scan_int_part_def less_Suc_eq_le length_dropWhile_le
           split: list.splits if_splits)

lemma scan_frac_shorter: "scan_frac s = (fr, r) \<Longrightarrow> length r \<le> length s"
  by (auto simp: scan_frac_def le_SucI length_dropWhile_le split: list.splits if_splits)

lemma scan_exp_shorter: "scan_exp s = (ex, r) \<Longrightarrow> length r \<le> length s"
  by (auto simp: scan_exp_def le_SucI length_dropWhile_le split: list.splits if_splits)

lemma scan_number_shorter:
  assumes "scan_number s = Some (tok, r)"
  shows "length r < length s"
proof -
  obtain sgn s1 where s1: "(case s of [] \<Rightarrow> ([], s) | c # r \<Rightarrow> if c = 0x2D then ([c], r) else ([], s)) = (sgn, s1)"
    by (cases "(case s of [] \<Rightarrow> ([], s) | c # r \<Rightarrow> if c = 0x2D then ([c], r) else ([], s))") auto
  then have l1: "length s1 \<le> length s"
    by (auto split: list.splits if_splits)
  from assms s1 obtain ip s2 where ip: "scan_int_part s1 = Some (ip, s2)"
    by (auto simp: scan_number_def split: option.splits)
  obtain fr s3 where fr: "scan_frac s2 = (fr, s3)" by (cases "scan_frac s2")
  obtain ex s4 where ex: "scan_exp s3 = (ex, s4)" by (cases "scan_exp s3")
  from assms s1 ip fr ex have "r = s4"
    by (auto simp: scan_number_def split: if_splits)
  with l1 scan_int_part_shorter [OF ip] scan_frac_shorter [OF fr] scan_exp_shorter [OF ex]
  show ?thesis by simp
qed

function lex :: "pystr \<Rightarrow> token list option" where
  "lex [] = Some []"
| "lex (c # s) =
    (if is_ws c then lex s
     else if c = 0x7B then map_option (Cons TLBrace) (lex s)
     else if c = 0x7D then map_option (Cons TRBrace) (lex s)
     else if c = 0x5B then map_option (Cons TLBrack) (lex s)
     else if c = 0x5D then map_option (Cons TRBrack) (lex s)
     else if c = 0x2C then map_option (Cons TComma) (lex s)
     else if c = 0x3A then map_option (Cons TColon) (lex s)
     else if c = 0x22 then
       (case scan_string s of
          None \<Rightarrow> None
        | Some (str, r) \<Rightarrow> map_option (Cons (TStr str)) (lex r))
     else if starts_with (ascii ''null'') (c # s) then map_option (Cons TNull) (lex (drop 3 s))
     else if starts_with (ascii ''true'') (c # s) then map_option (Cons TTrue) (lex (drop 3 s))
     else if starts_with (ascii ''false'') (c # s) then map_option (Cons TFalse) (lex (drop 4 s))
     else
       (case scan_number (c # s) of
          Some (tok, r) \<Rightarrow> map_option (Cons tok) (lex r)
        | None \<Rightarrow>
            if starts_with (ascii ''NaN'') (c # s)
            then map_option (Cons (TFloat (ascii ''NaN''))) (lex (drop 2 s))
            else if starts_with (ascii ''Infinity'') (c # s)
            then map_option (Cons (TFloat (ascii ''Infinity''))) (lex (drop 7 s))
            else if starts_with (ascii ''-Infinity'') (c # s)
            then map_option (Cons (TFloat (ascii ''-Infinity''))) (lex (drop 8 s))
            else None))"
  by pat_completeness auto
termination
  by (relation "measure length")
     (auto dest: scan_string_shorter scan_number_shorter)

section \<open>\<open>json.loads\<close>: values\<close>

text \<open>
  A key that occurs again in an object keeps its place and takes the later value, as
  \<open>dict\<close> does.
\<close>

fun dict_set :: "(pystr \<times> json) list \<Rightarrow> pystr \<Rightarrow> json \<Rightarrow> (pystr \<times> json) list" where
  "dict_set [] k v = [(k, v)]"
| "dict_set ((k', v') # kvs) k v =
    (if k' = k then (k', v) # kvs else (k', v') # dict_set kvs k v)"

text \<open>
  The tokens are read by the pushdown automaton of the JSON grammar. A frame is a
  container under construction: a list with its items so far, an object waiting for a key
  or a delimiter, an object waiting for the value of a key. The decoder fails
  (\<open>JSONDecodeError\<close>, here \<open>None\<close>) on any token the grammar does not allow, on input
  that ends early, and on extra data after the value.
\<close>

datatype frame =
    FList "json list"
  | FObj "(pystr \<times> json) list"
  | FKey "(pystr \<times> json) list" pystr

datatype mode =
    ExpectValue | ExpectValueOrClose | ExpectKey | ExpectKeyOrClose | ExpectColon | AfterValue

datatype pstate = Parsing mode "frame list" | Finished json

fun put_value :: "json \<Rightarrow> frame list \<Rightarrow> pstate option" where
  "put_value v [] = Some (Finished v)"
| "put_value v (FList items # stk) = Some (Parsing AfterValue (FList (items @ [v]) # stk))"
| "put_value v (FKey kvs k # stk) = Some (Parsing AfterValue (FObj (dict_set kvs k v) # stk))"
| "put_value v (FObj kvs # stk) = None"

fun value_token :: "token \<Rightarrow> frame list \<Rightarrow> pstate option" where
  "value_token TLBrack stk = Some (Parsing ExpectValueOrClose (FList [] # stk))"
| "value_token TLBrace stk = Some (Parsing ExpectKeyOrClose (FObj [] # stk))"
| "value_token (TStr s) stk = put_value (JStr s) stk"
| "value_token (TInt i) stk = put_value (JInt i) stk"
| "value_token (TFloat f) stk = put_value (JFloat f) stk"
| "value_token TNull stk = put_value JNull stk"
| "value_token TTrue stk = put_value (JBool True) stk"
| "value_token TFalse stk = put_value (JBool False) stk"
| "value_token _ stk = None"

fun key_token :: "token \<Rightarrow> frame list \<Rightarrow> pstate option" where
  "key_token (TStr k) (FObj kvs # stk) = Some (Parsing ExpectColon (FKey kvs k # stk))"
| "key_token _ _ = None"

fun step :: "token \<Rightarrow> pstate \<Rightarrow> pstate option" where
  "step t (Finished v) = None"
| "step t (Parsing ExpectValue stk) = value_token t stk"
| "step t (Parsing ExpectValueOrClose stk) =
    (case (t, stk) of
       (TRBrack, FList items # stk') \<Rightarrow> put_value (JList items) stk'
     | _ \<Rightarrow> value_token t stk)"
| "step t (Parsing ExpectKey stk) = key_token t stk"
| "step t (Parsing ExpectKeyOrClose stk) =
    (case (t, stk) of
       (TRBrace, FObj kvs # stk') \<Rightarrow> put_value (JObj kvs) stk'
     | _ \<Rightarrow> key_token t stk)"
| "step t (Parsing ExpectColon stk) =
    (case t of TColon \<Rightarrow> Some (Parsing ExpectValue stk) | _ \<Rightarrow> None)"
| "step t (Parsing AfterValue stk) =
    (case (t, stk) of
       (TComma, FList items # stk') \<Rightarrow> Some (Parsing ExpectValue stk)
     | (TRBrack, FList items # stk') \<Rightarrow> put_value (JList items) stk'
     | (TComma, FObj kvs # stk') \<Rightarrow> Some (Parsing ExpectKey stk)
     | (TRBrace, FObj kvs # stk') \<Rightarrow> put_value (JObj kvs) stk'
     | _ \<Rightarrow> None)"

fun run :: "token list \<Rightarrow> pstate \<Rightarrow> pstate option" where
  "run [] st = Some st"
| "run (t # ts) st = (case step t st of None \<Rightarrow> None | Some st' \<Rightarrow> run ts st')"

definition parse_tokens :: "token list \<Rightarrow> json option" where
  "parse_tokens ts =
    (case run ts (Parsing ExpectValue []) of
       Some (Finished v) \<Rightarrow> Some v
     | _ \<Rightarrow> None)"

definition json_loads :: "pystr \<Rightarrow> json option" where
  "json_loads s = (case lex s of None \<Rightarrow> None | Some ts \<Rightarrow> parse_tokens ts)"

section \<open>\<open>json.dump\<close> with \<open>indent=4\<close>\<close>

text \<open>
  With \<open>ensure_ascii\<close> (the default) every character outside \<open>' '..'~'\<close>, and \<open>"\<close> and
  \<open>\\<close>, is escaped; a code point from \<open>0x10000\<close> is written as a surrogate pair of two
  \<open>\uXXXX\<close> escapes, in lower-case hexadecimal.
\<close>

definition hexdigit :: "nat \<Rightarrow> nat" where
  "hexdigit d = (if d < 10 then 0x30 + d else 0x57 + d)"

definition hex4 :: "nat \<Rightarrow> pystr" where
  "hex4 n = [hexdigit (n div 4096 mod 16), hexdigit (n div 256 mod 16),
             hexdigit (n div 16 mod 16), hexdigit (n mod 16)]"

definition escape_char :: "nat \<Rightarrow> pystr" where
  "escape_char c =
    (if c = 0x22 then [0x5C, 0x22]
     else if c = 0x5C then [0x5C, 0x5C]
     else if c = 0x0A then [0x5C, 0x6E]
     else if c = 0x0D then [0x5C, 0x72]
     else if c = 0x09 then [0x5C, 0x74]
     else if c = 0x08 then [0x5C, 0x62]
     else if c = 0x0C then [0x5C, 0x66]
     else if 0x20 \<le> c \<and> c \<le> 0x7E then [c]
     else if c < 0x10000 then [0x5C, 0x75] @ hex4 c
     else [0x5C, 0x75] @ hex4 (0xD800 + ((c - 0x10000) div 1024) mod 1024)
          @ [0x5C, 0x75] @ hex4 (0xDC00 + (c - 0x10000) mod 1024))"

definition encode_string :: "pystr \<Rightarrow> pystr" where
  "encode_string s = [0x22] @ concat (map escape_char s) @ [0x22]"

text \<open>\<open>int.__repr__\<close>: decimal digits, with a sign for a negative number.\<close>

function digits_of :: "nat \<Rightarrow> pystr" where
  "digits_of n = (if n < 10 then [0x30 + n] else digits_of (n div 10) @ [0x30 + n mod 10])"
  by pat_completeness auto
termination
  by (relation "measure id") auto

definition int_repr :: "int \<Rightarrow> pystr" where
  "int_repr i = (if i < 0 then 0x2D # digits_of (nat (- i)) else digits_of (nat i))"

text \<open>
  The pretty printer of \<open>json.dump(data, file, indent=4)\<close>: an empty container is \<open>[]\<close> or
  \<open>{}\<close>; otherwise each item stands on a line of its own, indented by four spaces per
  level, items are separated by \<open>,\<close> and a key from its value by \<open>: \<close>. A \<open>float\<close> is
  printed as the literal that carries it.
\<close>

definition newline_indent :: "nat \<Rightarrow> pystr" where
  "newline_indent level = 0x0A # replicate (4 * level) 0x20"

fun join :: "'a list \<Rightarrow> 'a list list \<Rightarrow> 'a list" where
  "join sep [] = []"
| "join sep [x] = x"
| "join sep (x # y # ys) = x @ sep @ join sep (y # ys)"

fun dumps_at :: "nat \<Rightarrow> json \<Rightarrow> pystr" where
  "dumps_at level JNull = ascii ''null''"
| "dumps_at level (JBool b) = (if b then ascii ''true'' else ascii ''false'')"
| "dumps_at level (JInt i) = int_repr i"
| "dumps_at level (JFloat f) = f"
| "dumps_at level (JStr s) = encode_string s"
| "dumps_at level (JList xs) =
    (if xs = [] then ascii ''[]''
     else ascii ''['' @ newline_indent (Suc level)
          @ join (0x2C # newline_indent (Suc level)) (map (dumps_at (Suc level)) xs)
          @ newline_indent level @ ascii '']'')"
| "dumps_at level (JObj kvs) =
    (if kvs = [] then ascii ''{}''
     else ascii ''{'' @ newline_indent (Suc level)
          @ join (0x2C # newline_indent (Suc level))
              (map (\<lambda>(k, v). encode_string k @ ascii '': '' @ dumps_at (Suc level) v) kvs)
          @ newline_indent level @ ascii ''}'')"

definition json_dumps :: "json \<Rightarrow> pystr" where
  "json_dumps v = dumps_at 0 v"

text \<open>
  \<open>json.dump\<close> takes more than it returns: a \<open>tuple\<close>, and a \<open>dict\<close> whose keys are
  \<open>str\<close>, \<open>int\<close>, \<open>float\<close>, \<open>bool\<close> or \<open>None\<close>. These are the values of the built-in
  types that it serializes; any other value makes it raise \<open>TypeError\<close> and is not
  modelled.
\<close>

datatype pykey = KStr pystr | KInt int | KFloat pystr | KBool bool | KNone

datatype pyval =
    PNone
  | PBool bool
  | PInt int
  | PFloat pystr
  | PStr pystr
  | PList "pyval list"
  | PTuple "pyval list"
  | PDict "(pykey \<times> pyval) list"

text \<open>
  The encoder writes a key that is not a \<open>str\<close> as a \<open>str\<close>: a \<open>float\<close> and an \<open>int\<close> by
  their \<open>repr\<close>, \<open>True\<close>, \<open>False\<close> and \<open>None\<close> as \<open>true\<close>, \<open>false\<close> and \<open>null\<close>. It writes
  a \<open>tuple\<close> as it writes a \<open>list\<close>. \<open>json_of\<close> is the JSON value whose text is written;
  two keys of a \<open>dict\<close> that are written alike are both written.
\<close>

fun key_str :: "pykey \<Rightarrow> pystr" where
  "key_str (KStr s) = s"
| "key_str (KFloat f) = f"
| "key_str (KBool b) = (if b then ascii ''true'' else ascii ''false'')"
| "key_str KNone = ascii ''null''"
| "key_str (KInt i) = int_repr i"

fun json_of :: "pyval \<Rightarrow> json" where
  "json_of PNone = JNull"
| "json_of (PBool b) = JBool b"
| "json_of (PInt i) = JInt i"
| "json_of (PFloat f) = JFloat f"
| "json_of (PStr s) = JStr s"
| "json_of (PList xs) = JList (map json_of xs)"
| "json_of (PTuple xs) = JList (map json_of xs)"
| "json_of (PDict kvs) = JObj (map (\<lambda>kv. (key_str (fst kv), json_of (snd kv))) kvs)"

text \<open>A value that \<open>json.load\<close> returned, among the values of Python.\<close>

fun py_of :: "json \<Rightarrow> pyval" where
  "py_of JNull = PNone"
| "py_of (JBool b) = PBool b"
| "py_of (JInt i) = PInt i"
| "py_of (JFloat f) = PFloat f"
| "py_of (JStr s) = PStr s"
| "py_of (JList xs) = PList (map py_of xs)"
| "py_of (JObj kvs) = PDict (map (\<lambda>kv. (KStr (fst kv), py_of (snd kv))) kvs)"

text \<open>
  The output is ASCII, so the UTF-8 text layer of the file writes one byte for each
  character.
\<close>

definition encode_ascii :: "pystr \<Rightarrow> string" where
  "encode_ascii s = map char_of s"

section \<open>Files and console\<close>

text \<open>
  The world of the program: the files of the working directory, by path, each a sequence
  of bytes, and what has been printed. Every existing path names a regular file that can
  be read and written, and a file can be created at every path; other faults of the
  environment, and the resource limits of the interpreter, are outside the model.
\<close>

datatype msg =
    Warning_invalid_format string
  | Error_reading string exn
  | Error_loading exn

record world =
  files :: "string \<Rightarrow> string option"
  stdout :: "msg list"

definition print :: "msg \<Rightarrow> world \<Rightarrow> world" where
  "print m w = w\<lparr>stdout := stdout w @ [m]\<rparr>"

text \<open>
  \<open>with open(path, 'r', encoding="utf-8") as file: json.load(file)\<close>: opening a missing
  file raises \<open>FileNotFoundError\<close>, reading bytes that are not UTF-8 raises
  \<open>UnicodeDecodeError\<close>, and text that is not JSON raises \<open>JSONDecodeError\<close>.
\<close>

definition read_json :: "string \<Rightarrow> world \<Rightarrow> exn + json" where
  "read_json path w =
    (case files w path of
       None \<Rightarrow> Inl FileNotFoundError
     | Some bytes \<Rightarrow>
         (case utf8_decode bytes of
            None \<Rightarrow> Inl UnicodeDecodeError
          | Some s \<Rightarrow>
              (case json_loads s of
                 None \<Rightarrow> Inl JSONDecodeError
               | Some v \<Rightarrow> Inr v)))"

section \<open>The program\<close>

definition HOTEL_FILE :: string where
  "HOTEL_FILE = ''hotels.json''"

definition CUSTOMER_FILE :: string where
  "CUSTOMER_FILE = ''customers.json''"

definition RESERVATION_FILE :: string where
  "RESERVATION_FILE = ''reservations.json''"

definition TEST_DATA_FILE :: string where
  "TEST_DATA_FILE = ''test_data.json''"

text \<open>
  A call returns a value or raises, and leaves a world: \<open>(Inr v, w)\<close> or \<open>(Inl e, w)\<close>.
\<close>

definition load_data :: "string \<Rightarrow> world \<Rightarrow> (exn + json list) \<times> world" where
  "load_data file_path w =
    (if files w file_path = None then (Inr [], w)
     else
       (case read_json file_path w of
          Inr data \<Rightarrow>
            (case data of
               JList xs \<Rightarrow> (Inr xs, w)
             | _ \<Rightarrow> (Inr [], print (Warning_invalid_format file_path) w))
        | Inl e \<Rightarrow>
            if isinstance e CJSONDecodeError \<or> isinstance e CIOError
            then (Inr [], print (Error_reading file_path e) w)
            else (Inl e, w)))"

definition save_data :: "string \<Rightarrow> json \<Rightarrow> world \<Rightarrow> world" where
  "save_data file_path data w =
    w\<lparr>files := (files w)(file_path \<mapsto> encode_ascii (json_dumps data))\<rparr>"

text \<open>
  \<open>save_data\<close> checks nothing about \<open>data\<close>. The calls of this program pass what
  \<open>load_data\<close> returned, with records appended or removed: that is \<open>save_data\<close> above.
  \<open>save_data_any\<close> is the same body on every value that \<open>json.dump\<close> serializes.
\<close>

definition save_data_any :: "string \<Rightarrow> pyval \<Rightarrow> world \<Rightarrow> world" where
  "save_data_any file_path data w =
    w\<lparr>files := (files w)(file_path \<mapsto> encode_ascii (json_dumps (json_of data)))\<rparr>"

definition dict_get :: "(pystr \<times> json) list \<Rightarrow> pystr \<Rightarrow> json \<Rightarrow> json" where
  "dict_get kvs k dflt = (case map_of kvs k of None \<Rightarrow> dflt | Some v \<Rightarrow> v)"

definition empty_defaults :: json where
  "empty_defaults =
    JObj [(ascii ''hotels'', JList []), (ascii ''customers'', JList []),
          (ascii ''reservations'', JList [])]"

definition load_test_data :: "world \<Rightarrow> (exn + json) \<times> world" where
  "load_test_data w =
    (case (case read_json TEST_DATA_FILE w of
             Inr test_data \<Rightarrow>
               (case test_data of
                  JObj kvs \<Rightarrow>
                    Inr (JObj [(ascii ''hotels'', dict_get kvs (ascii ''hotels'') (JList [])),
                               (ascii ''customers'', dict_get kvs (ascii ''customers'') (JList [])),
                               (ascii ''reservations'',
                                dict_get kvs (ascii ''reservations'') (JList []))])
                | _ \<Rightarrow> Inl ValueError)
           | Inl e \<Rightarrow> Inl e) of
       Inr r \<Rightarrow> (Inr r, w)
     | Inl e \<Rightarrow>
         if isinstance e CJSONDecodeError \<or> isinstance e CIOError \<or> isinstance e CValueError
         then (Inr empty_defaults, print (Error_loading e) w)
         else (Inl e, w))"

text \<open>
  \<open>h[key]\<close> for a \<open>str\<close> key: the value of the key in a \<open>dict\<close>, \<open>KeyError\<close> when the
  \<open>dict\<close> lacks it, \<open>TypeError\<close> on every other value.
\<close>

fun subscript :: "json \<Rightarrow> pystr \<Rightarrow> exn + json" where
  "subscript (JObj kvs) k = (case map_of kvs k of None \<Rightarrow> Inl KeyError | Some v \<Rightarrow> Inr v)"
| "subscript _ k = Inl TypeError"

text \<open>A list comprehension \<open>[x for x in xs if p(x)]\<close> whose condition may raise.\<close>

fun comprehension :: "('a \<Rightarrow> exn + bool) \<Rightarrow> 'a list \<Rightarrow> exn + 'a list" where
  "comprehension p [] = Inr []"
| "comprehension p (x # xs) =
    (case p x of
       Inl e \<Rightarrow> Inl e
     | Inr b \<Rightarrow>
         (case comprehension p xs of
            Inl e \<Rightarrow> Inl e
          | Inr ys \<Rightarrow> Inr (if b then x # ys else ys)))"

text \<open>\<open>for x in xs: if x[key] == name: return x\<close>, then \<open>return {}\<close>.\<close>

fun first_with :: "pystr \<Rightarrow> pystr \<Rightarrow> json list \<Rightarrow> exn + json" where
  "first_with key nm [] = Inr (JObj [])"
| "first_with key nm (x # xs) =
    (case subscript x key of
       Inl e \<Rightarrow> Inl e
     | Inr v \<Rightarrow> if v = JStr nm then Inr x else first_with key nm xs)"

text \<open>The condition \<open>x[key] != name\<close>.\<close>

definition field_differs :: "pystr \<Rightarrow> pystr \<Rightarrow> json \<Rightarrow> exn + bool" where
  "field_differs key nm x =
    (case subscript x key of Inl e \<Rightarrow> Inl e | Inr v \<Rightarrow> Inr (v \<noteq> JStr nm))"

subsection \<open>Hotel\<close>

record Hotel =
  hotel_name :: pystr
  hotel_location :: pystr
  hotel_rooms :: int
  hotel_available_rooms :: int

definition Hotel_init :: "pystr \<Rightarrow> pystr \<Rightarrow> int \<Rightarrow> Hotel" where
  "Hotel_init nm location rooms =
    \<lparr>hotel_name = nm, hotel_location = location, hotel_rooms = rooms,
     hotel_available_rooms = rooms\<rparr>"

definition Hotel_to_dict :: "Hotel \<Rightarrow> json" where
  "Hotel_to_dict h =
    JObj [(ascii ''name'', JStr (hotel_name h)),
          (ascii ''location'', JStr (hotel_location h)),
          (ascii ''rooms'', JInt (hotel_rooms h)),
          (ascii ''available_rooms'', JInt (hotel_available_rooms h))]"

definition create_hotel :: "pystr \<Rightarrow> pystr \<Rightarrow> int \<Rightarrow> world \<Rightarrow> (exn + unit) \<times> world" where
  "create_hotel nm location rooms w =
    (case load_data HOTEL_FILE w of
       (Inl e, w1) \<Rightarrow> (Inl e, w1)
     | (Inr hotels, w1) \<Rightarrow>
         (Inr (),
          save_data HOTEL_FILE
            (JList (hotels @ [Hotel_to_dict (Hotel_init nm location rooms)])) w1))"

definition delete_hotel :: "pystr \<Rightarrow> world \<Rightarrow> (exn + unit) \<times> world" where
  "delete_hotel nm w =
    (case load_data HOTEL_FILE w of
       (Inl e, w1) \<Rightarrow> (Inl e, w1)
     | (Inr loaded, w1) \<Rightarrow>
         (case comprehension (field_differs (ascii ''name'') nm) loaded of
            Inl e \<Rightarrow> (Inl e, w1)
          | Inr hotels \<Rightarrow> (Inr (), save_data HOTEL_FILE (JList hotels) w1)))"

definition get_hotel :: "pystr \<Rightarrow> world \<Rightarrow> (exn + json) \<times> world" where
  "get_hotel nm w =
    (case load_data HOTEL_FILE w of
       (Inl e, w1) \<Rightarrow> (Inl e, w1)
     | (Inr loaded, w1) \<Rightarrow> (first_with (ascii ''name'') nm loaded, w1))"

subsection \<open>Customer\<close>

record Customer =
  customer_name :: pystr
  customer_email :: pystr

definition Customer_init :: "pystr \<Rightarrow> pystr \<Rightarrow> Customer" where
  "Customer_init nm email = \<lparr>customer_name = nm, customer_email = email\<rparr>"

definition Customer_to_dict :: "Customer \<Rightarrow> json" where
  "Customer_to_dict c =
    JObj [(ascii ''name'', JStr (customer_name c)), (ascii ''email'', JStr (customer_email c))]"

definition create_customer :: "pystr \<Rightarrow> pystr \<Rightarrow> world \<Rightarrow> (exn + unit) \<times> world" where
  "create_customer nm email w =
    (case load_data CUSTOMER_FILE w of
       (Inl e, w1) \<Rightarrow> (Inl e, w1)
     | (Inr customers, w1) \<Rightarrow>
         (Inr (),
          save_data CUSTOMER_FILE
            (JList (customers @ [Customer_to_dict (Customer_init nm email)])) w1))"

definition delete_customer :: "pystr \<Rightarrow> world \<Rightarrow> (exn + unit) \<times> world" where
  "delete_customer nm w =
    (case load_data CUSTOMER_FILE w of
       (Inl e, w1) \<Rightarrow> (Inl e, w1)
     | (Inr loaded, w1) \<Rightarrow>
         (case comprehension (field_differs (ascii ''name'') nm) loaded of
            Inl e \<Rightarrow> (Inl e, w1)
          | Inr customers \<Rightarrow> (Inr (), save_data CUSTOMER_FILE (JList customers) w1)))"

definition get_customer :: "pystr \<Rightarrow> world \<Rightarrow> (exn + json) \<times> world" where
  "get_customer nm w =
    (case load_data CUSTOMER_FILE w of
       (Inl e, w1) \<Rightarrow> (Inl e, w1)
     | (Inr loaded, w1) \<Rightarrow> (first_with (ascii ''name'') nm loaded, w1))"

subsection \<open>Reservation\<close>

record Reservation =
  reservation_customer :: pystr
  reservation_hotel :: pystr

definition Reservation_init :: "pystr \<Rightarrow> pystr \<Rightarrow> Reservation" where
  "Reservation_init customer hotel =
    \<lparr>reservation_customer = customer, reservation_hotel = hotel\<rparr>"

definition Reservation_to_dict :: "Reservation \<Rightarrow> json" where
  "Reservation_to_dict r =
    JObj [(ascii ''customer'', JStr (reservation_customer r)),
          (ascii ''hotel'', JStr (reservation_hotel r))]"

definition create_reservation :: "pystr \<Rightarrow> pystr \<Rightarrow> world \<Rightarrow> (exn + unit) \<times> world" where
  "create_reservation customer hotel w =
    (case load_data RESERVATION_FILE w of
       (Inl e, w1) \<Rightarrow> (Inl e, w1)
     | (Inr reservations, w1) \<Rightarrow>
         (Inr (),
          save_data RESERVATION_FILE
            (JList (reservations @ [Reservation_to_dict (Reservation_init customer hotel)]))
            w1))"

text \<open>
  The condition \<open>not (r['customer'] == customer and r['hotel'] == hotel)\<close>: \<open>and\<close> reads
  \<open>r['hotel']\<close> only when the customer matches.
\<close>

definition not_this_reservation :: "pystr \<Rightarrow> pystr \<Rightarrow> json \<Rightarrow> exn + bool" where
  "not_this_reservation customer hotel r =
    (case subscript r (ascii ''customer'') of
       Inl e \<Rightarrow> Inl e
     | Inr c \<Rightarrow>
         if c = JStr customer then
           (case subscript r (ascii ''hotel'') of
              Inl e \<Rightarrow> Inl e
            | Inr h \<Rightarrow> Inr (\<not> (h = JStr hotel)))
         else Inr True)"

definition cancel_reservation :: "pystr \<Rightarrow> pystr \<Rightarrow> world \<Rightarrow> (exn + unit) \<times> world" where
  "cancel_reservation customer hotel w =
    (case load_data RESERVATION_FILE w of
       (Inl e, w1) \<Rightarrow> (Inl e, w1)
     | (Inr loaded, w1) \<Rightarrow>
         (case comprehension (not_this_reservation customer hotel) loaded of
            Inl e \<Rightarrow> (Inl e, w1)
          | Inr reservations \<Rightarrow>
              (Inr (), save_data RESERVATION_FILE (JList reservations) w1)))"

definition get_reservations :: "world \<Rightarrow> (exn + json list) \<times> world" where
  "get_reservations w = load_data RESERVATION_FILE w"

section \<open>Vocabulary of the properties\<close>

text \<open>The value of a key in a record, when the record is a \<open>dict\<close> that holds the key.\<close>

definition field :: "pystr \<Rightarrow> json \<Rightarrow> json option" where
  "field key x = (case x of JObj kvs \<Rightarrow> map_of kvs key | _ \<Rightarrow> None)"

definition has_field :: "pystr \<Rightarrow> json \<Rightarrow> bool" where
  "has_field key x = (field key x \<noteq> None)"

text \<open>A working directory without files and a silent console; a world with one more file.\<close>

definition world0 :: world where
  "world0 = \<lparr>files = (\<lambda>p. None), stdout = []\<rparr>"

definition with_file :: "string \<Rightarrow> string \<Rightarrow> world \<Rightarrow> world" where
  "with_file path bytes w = w\<lparr>files := (files w)(path \<mapsto> bytes)\<rparr>"

text \<open>
  The calls of the three repositories, and the world a call leaves, whether it returns or
  raises.
\<close>

datatype call =
    Create_hotel pystr pystr int
  | Delete_hotel pystr
  | Get_hotel pystr
  | Create_customer pystr pystr
  | Delete_customer pystr
  | Get_customer pystr
  | Create_reservation pystr pystr
  | Cancel_reservation pystr pystr
  | Get_reservations

fun perform :: "call \<Rightarrow> world \<Rightarrow> world" where
  "perform (Create_hotel nm location rooms) w = snd (create_hotel nm location rooms w)"
| "perform (Delete_hotel nm) w = snd (delete_hotel nm w)"
| "perform (Get_hotel nm) w = snd (get_hotel nm w)"
| "perform (Create_customer nm email) w = snd (create_customer nm email w)"
| "perform (Delete_customer nm) w = snd (delete_customer nm w)"
| "perform (Get_customer nm) w = snd (get_customer nm w)"
| "perform (Create_reservation customer hotel) w = snd (create_reservation customer hotel w)"
| "perform (Cancel_reservation customer hotel) w = snd (cancel_reservation customer hotel w)"
| "perform Get_reservations w = snd (get_reservations w)"

text \<open>
  The hotels a world stores: what \<open>load_data\<close> reads from the hotel file. The new hotel of
  a call: the record \<open>create_hotel\<close> builds, whose \<open>available_rooms\<close> is its \<open>rooms\<close>.
\<close>

definition stored_hotels :: "world \<Rightarrow> json list" where
  "stored_hotels w = (case fst (load_data HOTEL_FILE w) of Inr hs \<Rightarrow> hs | Inl e \<Rightarrow> [])"

definition is_new_hotel :: "call \<Rightarrow> json \<Rightarrow> bool" where
  "is_new_hotel c h =
    (case c of
       Create_hotel nm location rooms \<Rightarrow>
         h = JObj [(ascii ''name'', JStr nm), (ascii ''location'', JStr location),
                   (ascii ''rooms'', JInt rooms), (ascii ''available_rooms'', JInt rooms)]
     | _ \<Rightarrow> False)"

text \<open>
  A string that is read back as it was written: its code points are below \<open>0x110000\<close>
  and no high surrogate stands directly before a low surrogate (the decoder reads the
  escapes of such a pair as one code point).
\<close>

fun str_ok :: "pystr \<Rightarrow> bool" where
  "str_ok [] = True"
| "str_ok [c] = (c < 0x110000)"
| "str_ok (c # d # s) =
    (c < 0x110000 \<and> \<not> (is_high_surrogate c \<and> is_low_surrogate d) \<and> str_ok (d # s))"

text \<open>
  The literal of a \<open>float\<close> that is valid JSON: a number with a fraction or an exponent.
  The literals a \<open>float\<close> can have at all add \<open>NaN\<close>, \<open>Infinity\<close> and \<open>-Infinity\<close>, which
  \<open>json.dump\<close> prints and \<open>json.load\<close> reads, and which are not JSON.
\<close>

definition json_number :: "pystr \<Rightarrow> bool" where
  "json_number f = (scan_number f = Some (TFloat f, []))"

definition float_ok :: "pystr \<Rightarrow> bool" where
  "float_ok f =
    (json_number f \<or> f = ascii ''NaN'' \<or> f = ascii ''Infinity'' \<or> f = ascii ''-Infinity'')"

text \<open>
  The values \<open>json.load\<close> can return: strings as above, a \<open>float\<close> with one of its
  literals, the keys of a \<open>dict\<close> distinct.
\<close>

fun json_ok :: "json \<Rightarrow> bool" where
  "json_ok (JFloat f) = float_ok f"
| "json_ok (JStr s) = str_ok s"
| "json_ok (JList xs) = list_all json_ok xs"
| "json_ok (JObj kvs) =
    (distinct (map fst kvs) \<and> list_all (\<lambda>kv. str_ok (fst kv) \<and> json_ok (snd kv)) kvs)"
| "json_ok _ = True"



text \<open>
  The tokens of the text that \<open>json.dump\<close> writes for a value, and lexing that continues
  after a known prefix of tokens.
\<close>

fun toks :: "json \<Rightarrow> token list" where
  "toks JNull = [TNull]"
| "toks (JBool b) = [if b then TTrue else TFalse]"
| "toks (JInt i) = [TInt i]"
| "toks (JFloat f) = [TFloat f]"
| "toks (JStr s) = [TStr s]"
| "toks (JList xs) = TLBrack # join [TComma] (map toks xs) @ [TRBrack]"
| "toks (JObj kvs) =
    TLBrace # join [TComma] (map (\<lambda>kv. TStr (fst kv) # TColon # toks (snd kv)) kvs)
    @ [TRBrace]"

definition then_lex :: "token list \<Rightarrow> pystr \<Rightarrow> token list option" where
  "then_lex ts t = map_option (\<lambda>r. ts @ r) (lex t)"

text \<open>
  What may follow a piece of a number for the scanners to stop there; what follows a
  \<open>\uXXXX\<close> escape of a high surrogate for the decoder to join the two.
\<close>

definition low_escape_ahead :: "pystr \<Rightarrow> bool" where
  "low_escape_ahead t =
    (take 2 t = [0x5C, 0x75]
     \<and> (case decode_uXXXX (drop 2 t) of Some u \<Rightarrow> is_low_surrogate u | None \<Rightarrow> False))"

definition no_digit_ahead :: "pystr \<Rightarrow> bool" where
  "no_digit_ahead t = (case t of [] \<Rightarrow> True | c # _ \<Rightarrow> \<not> is_digit c)"

definition frac_stop :: "pystr \<Rightarrow> bool" where
  "frac_stop t = (case t of [] \<Rightarrow> True | c # _ \<Rightarrow> \<not> is_digit c \<and> c \<noteq> 0x2E)"

definition number_stop :: "pystr \<Rightarrow> bool" where
  "number_stop t =
    (case t of [] \<Rightarrow> True | c # _ \<Rightarrow> \<not> is_digit c \<and> c \<noteq> 0x2E \<and> c \<noteq> 0x65 \<and> c \<noteq> 0x45)"

text \<open>
  Text of ASCII characters, as \<open>json.dump\<close> writes; text of Unicode scalar values, as the
  UTF-8 decoder returns.
\<close>

definition ascii_text :: "pystr \<Rightarrow> bool" where
  "ascii_text s = (\<forall>c \<in> set s. c < 0x80)"

definition is_scalar :: "nat \<Rightarrow> bool" where
  "is_scalar c = (c < 0x110000 \<and> \<not> (0xD800 \<le> c \<and> c \<le> 0xDFFF))"

definition scalar_text :: "pystr \<Rightarrow> bool" where
  "scalar_text s = (\<forall>c \<in> set s. is_scalar c)"

text \<open>The states and tokens of the decoder that hold well-formed values only.\<close>

definition value_mode :: "mode \<Rightarrow> bool" where
  "value_mode m = (m = ExpectValue \<or> m = ExpectValueOrClose)"

definition key_mode :: "mode \<Rightarrow> bool" where
  "key_mode m = (m = ExpectKey \<or> m = ExpectKeyOrClose)"

fun tok_ok :: "token \<Rightarrow> bool" where
  "tok_ok (TStr s) = str_ok s"
| "tok_ok (TFloat f) = float_ok f"
| "tok_ok _ = True"

fun frame_ok :: "frame \<Rightarrow> bool" where
  "frame_ok (FList items) = list_all json_ok items"
| "frame_ok (FObj kvs) = json_ok (JObj kvs)"
| "frame_ok (FKey kvs k) = (json_ok (JObj kvs) \<and> str_ok k)"

fun state_ok :: "pstate \<Rightarrow> bool" where
  "state_ok (Parsing m stk) = list_all frame_ok stk"
| "state_ok (Finished v) = json_ok v"

section \<open>Records and loops\<close>

lemmas eval_defs = load_data_def read_json_def with_file_def world0_def utf8_decode_def
  json_loads_def ascii_def starts_with_def parse_tokens_def is_ws_def
  scan_number_def scan_int_part_def scan_frac_def scan_exp_def is_digit_def
  HOTEL_FILE_def RESERVATION_FILE_def TEST_DATA_FILE_def CUSTOMER_FILE_def

lemma subscript_field:
  "subscript x key =
    (case field key x of
       None \<Rightarrow> (case x of JObj kvs \<Rightarrow> Inl KeyError | _ \<Rightarrow> Inl TypeError)
     | Some v \<Rightarrow> Inr v)"
  by (cases x) (auto simp: field_def split: option.splits)

lemma subscript_has_field:
  "has_field key x \<Longrightarrow> subscript x key = Inr (the (field key x))"
  by (cases x) (auto simp: field_def has_field_def split: option.splits)

lemma comprehension_field_differs:
  "list_all (has_field key) xs \<Longrightarrow>
   comprehension (field_differs key nm) xs
   = Inr (filter (\<lambda>x. field key x \<noteq> Some (JStr nm)) xs)"
  by (induction xs) (auto simp: field_differs_def has_field_def subscript_has_field)

lemma comprehension_not_this_reservation:
  "list_all (\<lambda>r. has_field (ascii ''customer'') r
               \<and> (field (ascii ''customer'') r = Some (JStr customer)
                    \<longrightarrow> has_field (ascii ''hotel'') r)) xs \<Longrightarrow>
   comprehension (not_this_reservation customer hotel) xs
   = Inr (filter (\<lambda>r. \<not> (field (ascii ''customer'') r = Some (JStr customer)
                          \<and> field (ascii ''hotel'') r = Some (JStr hotel))) xs)"
  by (induction xs)
     (auto simp: not_this_reservation_def has_field_def subscript_has_field)

lemma first_with_find:
  "list_all (has_field key) (takeWhile (\<lambda>x. field key x \<noteq> Some (JStr nm)) xs) \<Longrightarrow>
   first_with key nm xs
   = Inr (case find (\<lambda>x. field key x = Some (JStr nm)) xs of Some x \<Rightarrow> x | None \<Rightarrow> JObj [])"
  by (induction xs) (auto simp: has_field_def subscript_field split: option.splits)

section \<open>The storage gateway\<close>

text \<open>
  C3. For a path that names no file, \<open>load_data\<close> returns the empty list; it raises
  nothing and prints nothing, so the world is as it was.
\<close>

theorem load_data_missing_file:
  "files w file_path = None \<Longrightarrow> load_data file_path w = (Inr [], w)"
  by (simp add: load_data_def)

text \<open>C3 at the path \<open>hotels.json\<close> of the empty directory.\<close>

theorem load_data_missing_file_witness:
  "files world0 HOTEL_FILE = None \<and> load_data HOTEL_FILE world0 = (Inr [], world0)"
  using load_data_missing_file [of world0 HOTEL_FILE] by (simp add: world0_def)

text \<open>
  C2. A file that exists and is not JSON should load as the empty list. The file of the
  single byte \<open>0xFF\<close> is not UTF-8, hence not JSON: reading it raises
  \<open>UnicodeDecodeError\<close>, which is neither a \<open>JSONDecodeError\<close> nor an \<open>IOError\<close>, and
  \<open>load_data\<close> lets it reach the caller.
\<close>

theorem load_data_undecodable_raises:
  "load_data HOTEL_FILE (with_file HOTEL_FILE [CHR 0xFF] world0)
   = (Inl UnicodeDecodeError, with_file HOTEL_FILE [CHR 0xFF] world0)"
  by (simp add: load_data_def read_json_def with_file_def world0_def utf8_decode_def)

text \<open>
  What \<open>load_data\<close> does keep of C2: bytes that decode as UTF-8 and then fail to parse, or
  parse to a value that is not a list, load as the empty list.
\<close>

lemma load_data_not_a_list:
  assumes "files w file_path = Some bytes" and "utf8_decode bytes = Some s"
    and "json_loads s = None \<or> (\<exists>v. json_loads s = Some v \<and> (\<forall>xs. v \<noteq> JList xs))"
  shows "fst (load_data file_path w) = Inr []"
  using assms
  by (auto simp: load_data_def read_json_def split: json.splits option.splits)

section \<open>The hotel repository\<close>

text \<open>
  C4, amended. When every stored record has a \<open>name\<close> field, \<open>delete_hotel\<close> saves
  exactly the stored records whose name is not the given one, in their order: every
  record of that name is dropped and every other record is kept.
\<close>

theorem delete_hotel_saves_filter:
  assumes "load_data HOTEL_FILE w = (Inr stored, w1)"
    and "list_all (has_field (ascii ''name'')) stored"
  shows "delete_hotel nm w
         = (Inr (), save_data HOTEL_FILE
                      (JList (filter (\<lambda>h. field (ascii ''name'') h \<noteq> Some (JStr nm)) stored))
                      w1)"
  using assms by (simp add: delete_hotel_def comprehension_field_differs)

text \<open>
  C4 as stated fails on the stored sequence \<open>[{}]\<close>: the record has no \<open>name\<close>, the
  comprehension raises \<open>KeyError\<close> and nothing is saved.
\<close>

theorem delete_hotel_counterexample:
  \<open>load_data HOTEL_FILE (with_file HOTEL_FILE ''[{}]'' world0)
     = (Inr [JObj []], with_file HOTEL_FILE ''[{}]'' world0)
   \<and> delete_hotel (ascii ''A'') (with_file HOTEL_FILE ''[{}]'' world0)
     = (Inl KeyError, with_file HOTEL_FILE ''[{}]'' world0)\<close>
proof -
  have l: "load_data HOTEL_FILE (with_file HOTEL_FILE ''[{}]'' world0)
           = (Inr [JObj []], with_file HOTEL_FILE ''[{}]'' world0)"
    by (simp add: eval_defs)
  show ?thesis
    by (simp add: l delete_hotel_def field_differs_def)
qed

text \<open>C4, amended, on three stored hotels of which two are named \<open>A\<close>: both go.\<close>

theorem delete_hotel_saves_filter_witness:
  \<open>load_data HOTEL_FILE
      (with_file HOTEL_FILE ''[{"name": "A"}, {"name": "B"}, {"name": "A"}]'' world0)
     = (Inr [JObj [(ascii ''name'', JStr (ascii ''A''))],
             JObj [(ascii ''name'', JStr (ascii ''B''))],
             JObj [(ascii ''name'', JStr (ascii ''A''))]],
        with_file HOTEL_FILE ''[{"name": "A"}, {"name": "B"}, {"name": "A"}]'' world0)
   \<and> list_all (has_field (ascii ''name''))
        [JObj [(ascii ''name'', JStr (ascii ''A''))],
         JObj [(ascii ''name'', JStr (ascii ''B''))],
         JObj [(ascii ''name'', JStr (ascii ''A''))]]
   \<and> delete_hotel (ascii ''A'')
        (with_file HOTEL_FILE ''[{"name": "A"}, {"name": "B"}, {"name": "A"}]'' world0)
     = (Inr (),
        save_data HOTEL_FILE (JList [JObj [(ascii ''name'', JStr (ascii ''B''))]])
          (with_file HOTEL_FILE ''[{"name": "A"}, {"name": "B"}, {"name": "A"}]'' world0))\<close>
proof -
  let ?w = \<open>with_file HOTEL_FILE ''[{"name": "A"}, {"name": "B"}, {"name": "A"}]'' world0\<close>
  let ?a = "JObj [(ascii ''name'', JStr (ascii ''A''))]"
  let ?b = "JObj [(ascii ''name'', JStr (ascii ''B''))]"
  have l: "load_data HOTEL_FILE ?w = (Inr [?a, ?b, ?a], ?w)"
    by (simp add: eval_defs)
  have h: "list_all (has_field (ascii ''name'')) [?a, ?b, ?a]"
    by (simp add: has_field_def field_def)
  from delete_hotel_saves_filter [OF l h, of "ascii ''A''"] l h
  show ?thesis by (simp add: field_def ascii_def)
qed



text \<open>
  C7, amended. When every stored record before the first one of the given name has a
  \<open>name\<close> field (every stored record, when none has that name), \<open>get_hotel\<close> returns the
  first stored record of that name, and \<open>{}\<close> when there is none.
\<close>

theorem get_hotel_first_match:
  assumes "load_data HOTEL_FILE w = (Inr stored, w1)"
    and "list_all (has_field (ascii ''name''))
           (takeWhile (\<lambda>h. field (ascii ''name'') h \<noteq> Some (JStr nm)) stored)"
  shows "get_hotel nm w
         = (Inr (case find (\<lambda>h. field (ascii ''name'') h = Some (JStr nm)) stored of
                   Some h \<Rightarrow> h
                 | None \<Rightarrow> JObj []),
            w1)"
  using assms by (simp add: get_hotel_def first_with_find)

text \<open>
  C7 as stated fails on the stored sequence \<open>[{}, {"name": "A"}]\<close>: the scan raises
  \<open>KeyError\<close> on the first record and never reaches the hotel named \<open>A\<close>.
\<close>

theorem get_hotel_counterexample:
  \<open>load_data HOTEL_FILE (with_file HOTEL_FILE ''[{}, {"name": "A"}]'' world0)
     = (Inr [JObj [], JObj [(ascii ''name'', JStr (ascii ''A''))]],
        with_file HOTEL_FILE ''[{}, {"name": "A"}]'' world0)
   \<and> get_hotel (ascii ''A'') (with_file HOTEL_FILE ''[{}, {"name": "A"}]'' world0)
     = (Inl KeyError, with_file HOTEL_FILE ''[{}, {"name": "A"}]'' world0)\<close>
proof -
  have l: \<open>load_data HOTEL_FILE (with_file HOTEL_FILE ''[{}, {"name": "A"}]'' world0)
     = (Inr [JObj [], JObj [(ascii ''name'', JStr (ascii ''A''))]],
        with_file HOTEL_FILE ''[{}, {"name": "A"}]'' world0)\<close>
    by (simp add: eval_defs)
  show ?thesis
    by (simp add: l get_hotel_def)
qed

text \<open>
  C7, amended: the first of two hotels named \<open>A\<close> is returned, whatever follows it; and
  \<open>{}\<close> is returned when no hotel is named \<open>A\<close>.
\<close>

theorem get_hotel_first_match_witness:
  \<open>load_data HOTEL_FILE
      (with_file HOTEL_FILE
         ''[{"name": "B"}, {"name": "A", "rooms": 1}, {"name": "A", "rooms": 2}, 7]'' world0)
     = (Inr [JObj [(ascii ''name'', JStr (ascii ''B''))],
             JObj [(ascii ''name'', JStr (ascii ''A'')), (ascii ''rooms'', JInt 1)],
             JObj [(ascii ''name'', JStr (ascii ''A'')), (ascii ''rooms'', JInt 2)],
             JInt 7],
        with_file HOTEL_FILE
          ''[{"name": "B"}, {"name": "A", "rooms": 1}, {"name": "A", "rooms": 2}, 7]'' world0)
   \<and> get_hotel (ascii ''A'')
        (with_file HOTEL_FILE
           ''[{"name": "B"}, {"name": "A", "rooms": 1}, {"name": "A", "rooms": 2}, 7]'' world0)
     = (Inr (JObj [(ascii ''name'', JStr (ascii ''A'')), (ascii ''rooms'', JInt 1)]),
        with_file HOTEL_FILE
          ''[{"name": "B"}, {"name": "A", "rooms": 1}, {"name": "A", "rooms": 2}, 7]'' world0)
   \<and> load_data HOTEL_FILE (with_file HOTEL_FILE ''[{"name": "B"}]'' world0)
     = (Inr [JObj [(ascii ''name'', JStr (ascii ''B''))]],
        with_file HOTEL_FILE ''[{"name": "B"}]'' world0)
   \<and> get_hotel (ascii ''A'') (with_file HOTEL_FILE ''[{"name": "B"}]'' world0)
     = (Inr (JObj []), with_file HOTEL_FILE ''[{"name": "B"}]'' world0)\<close>
proof -
  let ?w = \<open>with_file HOTEL_FILE
         ''[{"name": "B"}, {"name": "A", "rooms": 1}, {"name": "A", "rooms": 2}, 7]'' world0\<close>
  let ?v = \<open>with_file HOTEL_FILE ''[{"name": "B"}]'' world0\<close>
  let ?b = "JObj [(ascii ''name'', JStr (ascii ''B''))]"
  let ?a1 = "JObj [(ascii ''name'', JStr (ascii ''A'')), (ascii ''rooms'', JInt 1)]"
  let ?a2 = "JObj [(ascii ''name'', JStr (ascii ''A'')), (ascii ''rooms'', JInt 2)]"
  have l: "load_data HOTEL_FILE ?w = (Inr [?b, ?a1, ?a2, JInt 7], ?w)"
    by (simp add: eval_defs)
  have h: "list_all (has_field (ascii ''name''))
             (takeWhile (\<lambda>h. field (ascii ''name'') h \<noteq> Some (JStr (ascii ''A'')))
                [?b, ?a1, ?a2, JInt 7])"
    by (simp add: has_field_def field_def ascii_def)
  have l': "load_data HOTEL_FILE ?v = (Inr [?b], ?v)"
    by (simp add: eval_defs)
  have h': "list_all (has_field (ascii ''name''))
             (takeWhile (\<lambda>h. field (ascii ''name'') h \<noteq> Some (JStr (ascii ''A''))) [?b])"
    by (simp add: has_field_def field_def ascii_def)
  from get_hotel_first_match [OF l h] get_hotel_first_match [OF l' h'] l l'
  show ?thesis by (simp add: field_def ascii_def)
qed

section \<open>The reservation repository\<close>

text \<open>
  C5, amended. When every stored record has a \<open>customer\<close> field, and a \<open>hotel\<close> field
  too if its customer is the given one, \<open>cancel_reservation\<close> saves exactly the stored
  records that differ from the given pair in the customer or in the hotel, in their
  order: every record of that pair is dropped.
\<close>

theorem cancel_reservation_saves_filter:
  assumes "load_data RESERVATION_FILE w = (Inr stored, w1)"
    and "list_all (\<lambda>r. has_field (ascii ''customer'') r
                      \<and> (field (ascii ''customer'') r = Some (JStr customer)
                           \<longrightarrow> has_field (ascii ''hotel'') r)) stored"
  shows "cancel_reservation customer hotel w
         = (Inr (), save_data RESERVATION_FILE
                      (JList (filter (\<lambda>r. \<not> (field (ascii ''customer'') r = Some (JStr customer)
                                              \<and> field (ascii ''hotel'') r = Some (JStr hotel)))
                                stored))
                      w1)"
  using assms by (simp add: cancel_reservation_def comprehension_not_this_reservation)

text \<open>
  C5 as stated fails on the stored sequence \<open>[{}]\<close>: the record has no \<open>customer\<close>, the
  comprehension raises \<open>KeyError\<close> and nothing is saved.
\<close>

theorem cancel_reservation_counterexample:
  \<open>load_data RESERVATION_FILE (with_file RESERVATION_FILE ''[{}]'' world0)
     = (Inr [JObj []], with_file RESERVATION_FILE ''[{}]'' world0)
   \<and> cancel_reservation (ascii ''P'') (ascii ''H'')
        (with_file RESERVATION_FILE ''[{}]'' world0)
     = (Inl KeyError, with_file RESERVATION_FILE ''[{}]'' world0)\<close>
proof -
  have l: "load_data RESERVATION_FILE (with_file RESERVATION_FILE ''[{}]'' world0)
           = (Inr [JObj []], with_file RESERVATION_FILE ''[{}]'' world0)"
    by (simp add: eval_defs)
  show ?thesis
    by (simp add: l cancel_reservation_def not_this_reservation_def)
qed

text \<open>
  C5, amended, on four stored reservations: both records of the pair go, the record of
  the same customer in another hotel stays, and so does a record without \<open>hotel\<close>.
\<close>

theorem cancel_reservation_saves_filter_witness:
  \<open>load_data RESERVATION_FILE
      (with_file RESERVATION_FILE
         ''[{"customer": "P", "hotel": "H"}, {"customer": "P", "hotel": "G"}, {"customer": "Q"}, {"customer": "P", "hotel": "H"}]''
         world0)
     = (Inr [JObj [(ascii ''customer'', JStr (ascii ''P'')), (ascii ''hotel'', JStr (ascii ''H''))],
             JObj [(ascii ''customer'', JStr (ascii ''P'')), (ascii ''hotel'', JStr (ascii ''G''))],
             JObj [(ascii ''customer'', JStr (ascii ''Q''))],
             JObj [(ascii ''customer'', JStr (ascii ''P'')), (ascii ''hotel'', JStr (ascii ''H''))]],
        with_file RESERVATION_FILE
          ''[{"customer": "P", "hotel": "H"}, {"customer": "P", "hotel": "G"}, {"customer": "Q"}, {"customer": "P", "hotel": "H"}]''
          world0)
   \<and> cancel_reservation (ascii ''P'') (ascii ''H'')
        (with_file RESERVATION_FILE
           ''[{"customer": "P", "hotel": "H"}, {"customer": "P", "hotel": "G"}, {"customer": "Q"}, {"customer": "P", "hotel": "H"}]''
           world0)
     = (Inr (),
        save_data RESERVATION_FILE
          (JList [JObj [(ascii ''customer'', JStr (ascii ''P'')),
                        (ascii ''hotel'', JStr (ascii ''G''))],
                  JObj [(ascii ''customer'', JStr (ascii ''Q''))]])
          (with_file RESERVATION_FILE
             ''[{"customer": "P", "hotel": "H"}, {"customer": "P", "hotel": "G"}, {"customer": "Q"}, {"customer": "P", "hotel": "H"}]''
             world0))\<close>
proof -
  let ?w = \<open>with_file RESERVATION_FILE
         ''[{"customer": "P", "hotel": "H"}, {"customer": "P", "hotel": "G"}, {"customer": "Q"}, {"customer": "P", "hotel": "H"}]''
         world0\<close>
  let ?ph = "JObj [(ascii ''customer'', JStr (ascii ''P'')), (ascii ''hotel'', JStr (ascii ''H''))]"
  let ?pg = "JObj [(ascii ''customer'', JStr (ascii ''P'')), (ascii ''hotel'', JStr (ascii ''G''))]"
  let ?q = "JObj [(ascii ''customer'', JStr (ascii ''Q''))]"
  have l: "load_data RESERVATION_FILE ?w = (Inr [?ph, ?pg, ?q, ?ph], ?w)"
    by (simp add: eval_defs)
  have h: "list_all (\<lambda>r. has_field (ascii ''customer'') r
                      \<and> (field (ascii ''customer'') r = Some (JStr (ascii ''P''))
                           \<longrightarrow> has_field (ascii ''hotel'') r)) [?ph, ?pg, ?q, ?ph]"
    by (simp add: has_field_def field_def ascii_def)
  from cancel_reservation_saves_filter [OF l h, of "ascii ''H''"] l
  show ?thesis by (simp add: field_def ascii_def)
qed

section \<open>The test fixture loader\<close>

text \<open>
  C9. When the seed file holds a JSON object, \<open>load_test_data\<close> returns what the object
  holds under \<open>hotels\<close>, \<open>customers\<close> and \<open>reservations\<close>, with \<open>[]\<close> for a key it lacks.
  In every other case (another JSON value, text that is not JSON, bytes that are not
  UTF-8, no file) it returns \<open>[]\<close> for all three.
\<close>

theorem load_test_data_returns:
  "(\<forall>kvs. read_json TEST_DATA_FILE w = Inr (JObj kvs) \<longrightarrow>
      load_test_data w
      = (Inr (JObj [(ascii ''hotels'',
                     case map_of kvs (ascii ''hotels'') of Some v \<Rightarrow> v | None \<Rightarrow> JList []),
                    (ascii ''customers'',
                     case map_of kvs (ascii ''customers'') of Some v \<Rightarrow> v | None \<Rightarrow> JList []),
                    (ascii ''reservations'',
                     case map_of kvs (ascii ''reservations'') of Some v \<Rightarrow> v | None \<Rightarrow> JList [])]),
         w))
   \<and> ((\<forall>kvs. read_json TEST_DATA_FILE w \<noteq> Inr (JObj kvs)) \<longrightarrow>
        fst (load_test_data w)
        = Inr (JObj [(ascii ''hotels'', JList []), (ascii ''customers'', JList []),
                     (ascii ''reservations'', JList [])]))"
proof (intro conjI allI impI)
  fix kvs
  assume "read_json TEST_DATA_FILE w = Inr (JObj kvs)"
  then show "load_test_data w
      = (Inr (JObj [(ascii ''hotels'',
                     case map_of kvs (ascii ''hotels'') of Some v \<Rightarrow> v | None \<Rightarrow> JList []),
                    (ascii ''customers'',
                     case map_of kvs (ascii ''customers'') of Some v \<Rightarrow> v | None \<Rightarrow> JList []),
                    (ascii ''reservations'',
                     case map_of kvs (ascii ''reservations'') of Some v \<Rightarrow> v | None \<Rightarrow> JList [])]),
         w)"
    by (simp add: load_test_data_def dict_get_def split: option.splits)
next
  assume n: "\<forall>kvs. read_json TEST_DATA_FILE w \<noteq> Inr (JObj kvs)"
  have e: "isinstance e CJSONDecodeError \<or> isinstance e CIOError \<or> isinstance e CValueError"
    if "read_json TEST_DATA_FILE w = Inl e" for e
    using that by (auto simp: read_json_def split: option.splits)
  show "fst (load_test_data w)
        = Inr (JObj [(ascii ''hotels'', JList []), (ascii ''customers'', JList []),
                     (ascii ''reservations'', JList [])])"
  proof (cases "read_json TEST_DATA_FILE w")
    case (Inl x)
    with e [OF Inl] show ?thesis
      by (auto simp: load_test_data_def empty_defaults_def)
  next
    case (Inr v)
    with n show ?thesis
      by (cases v) (auto simp: load_test_data_def empty_defaults_def)
  qed
qed

text \<open>
  C9 on a seed without \<open>reservations\<close>, on a seed whose root is a list and on a
  truncated seed.
\<close>

theorem load_test_data_returns_witness:
  \<open>fst (load_test_data
          (with_file TEST_DATA_FILE ''{"hotels": [{"name": "A"}], "customers": []}'' world0))
     = Inr (JObj [(ascii ''hotels'', JList [JObj [(ascii ''name'', JStr (ascii ''A''))]]),
                  (ascii ''customers'', JList []),
                  (ascii ''reservations'', JList [])])
   \<and> fst (load_test_data (with_file TEST_DATA_FILE ''[1]'' world0))
     = Inr (JObj [(ascii ''hotels'', JList []), (ascii ''customers'', JList []),
                  (ascii ''reservations'', JList [])])
   \<and> fst (load_test_data (with_file TEST_DATA_FILE ''{"hotels": '' world0))
     = Inr (JObj [(ascii ''hotels'', JList []), (ascii ''customers'', JList []),
                  (ascii ''reservations'', JList [])])\<close>
proof -
  let ?w1 = \<open>with_file TEST_DATA_FILE ''{"hotels": [{"name": "A"}], "customers": []}'' world0\<close>
  let ?w2 = \<open>with_file TEST_DATA_FILE ''[1]'' world0\<close>
  let ?w3 = \<open>with_file TEST_DATA_FILE ''{"hotels": '' world0\<close>
  have r1: "read_json TEST_DATA_FILE ?w1
            = Inr (JObj [(ascii ''hotels'', JList [JObj [(ascii ''name'', JStr (ascii ''A''))]]),
                         (ascii ''customers'', JList [])])"
    by (simp add: eval_defs)
  have r2: "read_json TEST_DATA_FILE ?w2 = Inr (JList [JInt 1])"
    by (simp add: eval_defs)
  have r3: "read_json TEST_DATA_FILE ?w3 = Inl JSONDecodeError"
    by (simp add: eval_defs)
  from load_test_data_returns [of ?w1] r1
  have "fst (load_test_data ?w1)
     = Inr (JObj [(ascii ''hotels'', JList [JObj [(ascii ''name'', JStr (ascii ''A''))]]),
                  (ascii ''customers'', JList []),
                  (ascii ''reservations'', JList [])])"
    by (simp add: ascii_def)
  moreover from load_test_data_returns [of ?w2] r2
  have "fst (load_test_data ?w2)
     = Inr (JObj [(ascii ''hotels'', JList []), (ascii ''customers'', JList []),
                  (ascii ''reservations'', JList [])])"
    by simp
  moreover from load_test_data_returns [of ?w3] r3
  have "fst (load_test_data ?w3)
     = Inr (JObj [(ascii ''hotels'', JList []), (ascii ''customers'', JList []),
                  (ascii ''reservations'', JList [])])"
    by simp
  ultimately show ?thesis by simp
qed

section \<open>No call touches the room counter\<close>

lemma files_load_data [simp]: "files (snd (load_data p w)) = files w"
  by (auto simp: load_data_def print_def split: sum.splits json.splits)

lemma files_save_data:
  "files (save_data p v w) q = (if q = p then Some (encode_ascii (json_dumps v)) else files w q)"
  by (simp add: save_data_def)

lemma comprehension_subset:
  "comprehension p xs = Inr ys \<Longrightarrow> set ys \<subseteq> set xs"
  by (induction xs arbitrary: ys) (auto split: sum.splits if_splits)

lemma file_names_differ:
  "CUSTOMER_FILE \<noteq> HOTEL_FILE" "RESERVATION_FILE \<noteq> HOTEL_FILE"
  by (simp_all add: CUSTOMER_FILE_def HOTEL_FILE_def RESERVATION_FILE_def)

lemma load_data_cases:
  obtains (ok) xs w1 where "load_data p w = (Inr xs, w1)" "files w1 = files w"
  | (raised) e w1 where "load_data p w = (Inl e, w1)" "files w1 = files w"
proof (cases "load_data p w")
  case (Pair r w1)
  have "files w1 = files w" using files_load_data [of p w] Pair by simp
  with Pair show ?thesis by (cases r) (auto intro: ok raised)
qed

text \<open>
  C8. Whatever the call, it leaves the hotel file as it was, or rewrites it with
  records each of which is a hotel stored before the call, as it was stored, or the
  hotel the call creates, whose \<open>available_rooms\<close> is its \<open>rooms\<close>. So no call changes
  the \<open>available_rooms\<close> of a stored hotel.
\<close>

theorem available_rooms_frame:
  "files (perform c w) HOTEL_FILE = files w HOTEL_FILE
   \<or> (\<exists>saved. files (perform c w) HOTEL_FILE = Some (encode_ascii (json_dumps (JList saved)))
        \<and> (\<forall>h \<in> set saved. h \<in> set (stored_hotels w) \<or> is_new_hotel c h))"
proof (cases c)
  case (Create_hotel nm location rooms)
  show ?thesis
  proof (cases rule: load_data_cases [of HOTEL_FILE w])
    case (ok xs w1)
    then show ?thesis
      using Create_hotel
      by (auto simp: create_hotel_def files_save_data stored_hotels_def is_new_hotel_def
                     Hotel_to_dict_def Hotel_init_def)
  next
    case (raised e w1)
    then show ?thesis using Create_hotel by (simp add: create_hotel_def)
  qed
next
  case (Delete_hotel nm)
  show ?thesis
  proof (cases rule: load_data_cases [of HOTEL_FILE w])
    case (ok xs w1)
    show ?thesis
    proof (cases "comprehension (field_differs (ascii ''name'') nm) xs")
      case (Inl e)
      with ok Delete_hotel show ?thesis by (simp add: delete_hotel_def)
    next
      case (Inr kept)
      from comprehension_subset [OF Inr] ok
      have "\<forall>h \<in> set kept. h \<in> set (stored_hotels w)"
        by (auto simp: stored_hotels_def)
      moreover from Inr ok Delete_hotel
      have "files (perform c w) HOTEL_FILE = Some (encode_ascii (json_dumps (JList kept)))"
        by (simp add: delete_hotel_def files_save_data)
      ultimately show ?thesis by blast
    qed
  next
    case (raised e w1)
    then show ?thesis using Delete_hotel by (simp add: delete_hotel_def)
  qed
next
  case (Get_hotel nm)
  then show ?thesis
    by (cases rule: load_data_cases [of HOTEL_FILE w]) (auto simp: get_hotel_def)
next
  case (Create_customer nm email)
  then show ?thesis
    by (cases rule: load_data_cases [of CUSTOMER_FILE w])
       (auto simp: create_customer_def files_save_data file_names_differ [symmetric])
next
  case (Delete_customer nm)
  then show ?thesis
    by (cases rule: load_data_cases [of CUSTOMER_FILE w])
       (auto simp: delete_customer_def files_save_data file_names_differ [symmetric]
             split: sum.splits)
next
  case (Get_customer nm)
  then show ?thesis
    by (cases rule: load_data_cases [of CUSTOMER_FILE w]) (auto simp: get_customer_def)
next
  case (Create_reservation customer hotel)
  then show ?thesis
    by (cases rule: load_data_cases [of RESERVATION_FILE w])
       (auto simp: create_reservation_def files_save_data file_names_differ [symmetric])
next
  case (Cancel_reservation customer hotel)
  then show ?thesis
    by (cases rule: load_data_cases [of RESERVATION_FILE w])
       (auto simp: cancel_reservation_def files_save_data file_names_differ [symmetric]
             split: sum.splits)
next
  case Get_reservations
  then show ?thesis
    by (simp add: get_reservations_def)
qed

text \<open>
  C8 on a directory with one hotel: \<open>create_hotel\<close> saves it unchanged before the new
  hotel, and \<open>cancel_reservation\<close> leaves the hotel file alone.
\<close>

theorem available_rooms_frame_witness:
  \<open>stored_hotels (with_file HOTEL_FILE ''[{"name": "B", "rooms": 2, "available_rooms": 2}]'' world0)
     = [JObj [(ascii ''name'', JStr (ascii ''B'')), (ascii ''rooms'', JInt 2),
              (ascii ''available_rooms'', JInt 2)]]
   \<and> files (perform (Create_hotel (ascii ''C'') (ascii ''Chile'') 15)
              (with_file HOTEL_FILE ''[{"name": "B", "rooms": 2, "available_rooms": 2}]'' world0))
        HOTEL_FILE
     = Some (encode_ascii (json_dumps (JList
         [JObj [(ascii ''name'', JStr (ascii ''B'')), (ascii ''rooms'', JInt 2),
                (ascii ''available_rooms'', JInt 2)],
          JObj [(ascii ''name'', JStr (ascii ''C'')), (ascii ''location'', JStr (ascii ''Chile'')),
                (ascii ''rooms'', JInt 15), (ascii ''available_rooms'', JInt 15)]])))
   \<and> is_new_hotel (Create_hotel (ascii ''C'') (ascii ''Chile'') 15)
        (JObj [(ascii ''name'', JStr (ascii ''C'')), (ascii ''location'', JStr (ascii ''Chile'')),
               (ascii ''rooms'', JInt 15), (ascii ''available_rooms'', JInt 15)])
   \<and> files (perform (Cancel_reservation (ascii ''P'') (ascii ''B''))
              (with_file HOTEL_FILE ''[{"name": "B", "rooms": 2, "available_rooms": 2}]'' world0))
        HOTEL_FILE
     = files (with_file HOTEL_FILE ''[{"name": "B", "rooms": 2, "available_rooms": 2}]'' world0)
         HOTEL_FILE\<close>
proof -
  let ?w = \<open>with_file HOTEL_FILE ''[{"name": "B", "rooms": 2, "available_rooms": 2}]'' world0\<close>
  let ?b = "JObj [(ascii ''name'', JStr (ascii ''B'')), (ascii ''rooms'', JInt 2),
                  (ascii ''available_rooms'', JInt 2)]"
  have l: "load_data HOTEL_FILE ?w = (Inr [?b], ?w)"
    by (simp add: eval_defs)
  have r: "load_data RESERVATION_FILE ?w = (Inr [], ?w)"
    by (simp add: eval_defs)
  from available_rooms_frame [of "Create_hotel (ascii ''C'') (ascii ''Chile'') 15" ?w]
       available_rooms_frame [of "Cancel_reservation (ascii ''P'') (ascii ''B'')" ?w] l r
  show ?thesis
    by (simp add: stored_hotels_def create_hotel_def cancel_reservation_def is_new_hotel_def
                  Hotel_to_dict_def Hotel_init_def files_save_data file_names_differ [symmetric])
qed

section \<open>What is written is read back\<close>

subsection \<open>Strings: what \<open>encode_string\<close> writes, \<open>scan_string\<close> reads\<close>

lemma hexval_hexdigit: "d < 16 \<Longrightarrow> hexval (hexdigit d) = Some d"
  by (auto simp: hexval_def hexdigit_def)

lemma hex_digits_value:
  fixes n :: nat
  assumes "n < 65536"
  shows "((n div 4096 mod 16 * 16 + n div 256 mod 16) * 16 + n div 16 mod 16) * 16 + n mod 16 = n"
proof -
  have a: "n div 16 div 16 = n div 256" by (simp add: div_mult2_eq)
  have b: "n div 256 div 16 = n div 4096" by (simp add: div_mult2_eq)
  have c: "n div 4096 mod 16 = n div 4096" using assms by simp
  have 1: "n = n div 16 * 16 + n mod 16" by simp
  have 2: "n div 16 = n div 256 * 16 + n div 16 mod 16"
    using div_mult_mod_eq [of "n div 16" 16] a by simp
  have 3: "n div 256 = n div 4096 * 16 + n div 256 mod 16"
    using div_mult_mod_eq [of "n div 256" 16] b by simp
  show ?thesis using 1 2 3 c by simp
qed

lemma decode_hex4: "n < 65536 \<Longrightarrow> decode_uXXXX (hex4 n @ r) = Some n"
proof -
  assume n: "n < 65536"
  have "decode_uXXXX (hex4 n @ r)
        = Some (((n div 4096 mod 16 * 16 + n div 256 mod 16) * 16 + n div 16 mod 16) * 16
                + n mod 16)"
    unfolding decode_uXXXX_def hex4_def by (simp add: hexval_hexdigit del: mod_less)
  with hex_digits_value [OF n] n show ?thesis by simp
qed

lemma hex4_length [simp]: "length (hex4 n) = 4"
  by (simp add: hex4_def)

lemma scan_string_u:
  assumes "decode_uXXXX (h @ t) = Some u" and "length h = 4"
    and "\<not> (is_high_surrogate u \<and> low_escape_ahead t)"
  shows "scan_string (0x5C # 0x75 # h @ t)
         = map_option (\<lambda>(str, r). (u # str, r)) (scan_string t)"
  using assms
  by (auto simp: low_escape_ahead_def split: option.splits)

lemma scan_string_pair:
  assumes "decode_uXXXX (h @ 0x5C # 0x75 # l @ t) = Some u" and "length h = 4"
    and "decode_uXXXX (l @ t) = Some v" and "length l = 4"
    and "is_high_surrogate u" and "is_low_surrogate v"
  shows "scan_string (0x5C # 0x75 # h @ 0x5C # 0x75 # l @ t)
         = map_option (\<lambda>(str, r). ((0x10000 + ((u - 0xD800) * 1024 + (v - 0xDC00))) # str, r))
             (scan_string t)"
  using assms by simp

lemma astral_split:
  fixes c :: nat
  assumes "65536 \<le> c" and "c < 1114112"
  shows "65536 + ((55296 + (c - 65536) div 1024 mod 1024 - 55296) * 1024
                  + (56320 + (c - 65536) mod 1024 - 56320)) = c"
proof -
  have "(c - 65536) div 1024 < 1024" using assms by simp
  then have "(c - 65536) div 1024 mod 1024 = (c - 65536) div 1024" by simp
  moreover have "(c - 65536) div 1024 * 1024 + (c - 65536) mod 1024 = c - 65536" by simp
  ultimately show ?thesis using assms by simp
qed

lemma scan_string_escape_char:
  assumes "c < 0x110000" and "\<not> (is_high_surrogate c \<and> low_escape_ahead t)"
  shows "scan_string (escape_char c @ t)
         = map_option (\<lambda>(str, r). (c # str, r)) (scan_string t)"
proof -
  consider (named) "c = 0x22 \<or> c = 0x5C \<or> c = 0x0A \<or> c = 0x0D \<or> c = 0x09 \<or> c = 0x08 \<or> c = 0x0C"
    | (plain) "0x20 \<le> c" "c \<le> 0x7E" "c \<noteq> 0x22" "c \<noteq> 0x5C"
    | (bmp) "c < 0x20 \<or> 0x7E < c" "c < 0x10000"
            "\<not> (c = 0x0A \<or> c = 0x0D \<or> c = 0x09 \<or> c = 0x08 \<or> c = 0x0C)"
    | (astral) "0x10000 \<le> c"
    by linarith
  then show ?thesis
  proof cases
    case named
    then show ?thesis by (auto simp: escape_char_def unescape_def)
  next
    case plain
    then show ?thesis by (simp add: escape_char_def)
  next
    case bmp
    then have e: "escape_char c = 0x5C # 0x75 # hex4 c"
      by (auto simp: escape_char_def)
    from bmp have "decode_uXXXX (hex4 c @ t) = Some c" by (simp add: decode_hex4)
    from scan_string_u [OF this _ assms(2)] e show ?thesis by simp
  next
    case astral
    define h where "h = 0xD800 + ((c - 0x10000) div 1024) mod 1024"
    define l where "l = 0xDC00 + (c - 0x10000) mod 1024"
    from astral have e: "escape_char c = 0x5C # 0x75 # hex4 h @ 0x5C # 0x75 # hex4 l"
      by (simp add: escape_char_def h_def l_def)
    have h: "h < 65536" "is_high_surrogate h"
      by (simp_all add: is_high_surrogate_def h_def)
    have l: "l < 65536" "is_low_surrogate l"
      by (simp_all add: is_low_surrogate_def l_def)
    have dh: "decode_uXXXX (hex4 h @ 0x5C # 0x75 # hex4 l @ t) = Some h"
      using h(1) by (rule decode_hex4)
    have dl: "decode_uXXXX (hex4 l @ t) = Some l"
      using l(1) by (rule decode_hex4)
    have c: "0x10000 + ((h - 0xD800) * 1024 + (l - 0xDC00)) = c"
      using astral_split [of c] astral assms(1) by (simp add: h_def l_def)
    have "scan_string (0x5C # 0x75 # hex4 h @ 0x5C # 0x75 # hex4 l @ t)
          = map_option (\<lambda>(str, r). ((0x10000 + ((h - 0xD800) * 1024 + (l - 0xDC00))) # str, r))
              (scan_string t)"
      by (rule scan_string_pair [OF dh _ dl _ h(2) l(2)]) simp_all
    then show ?thesis unfolding c by (simp add: e)
  qed
qed

lemma low_escape_ahead_escape_char:
  assumes "low_escape_ahead (escape_char d @ t)"
  shows "is_low_surrogate d"
proof -
  consider (named) "d = 0x22 \<or> d = 0x5C \<or> d = 0x0A \<or> d = 0x0D \<or> d = 0x09 \<or> d = 0x08 \<or> d = 0x0C"
    | (plain) "0x20 \<le> d" "d \<le> 0x7E" "d \<noteq> 0x22" "d \<noteq> 0x5C"
    | (bmp) "d < 0x20 \<or> 0x7E < d" "d < 0x10000"
            "\<not> (d = 0x0A \<or> d = 0x0D \<or> d = 0x09 \<or> d = 0x08 \<or> d = 0x0C)"
    | (astral) "0x10000 \<le> d"
    by linarith
  then show ?thesis
  proof cases
    case named
    with assms show ?thesis by (auto simp: escape_char_def low_escape_ahead_def)
  next
    case plain
    with assms show ?thesis by (auto simp: escape_char_def low_escape_ahead_def)
  next
    case bmp
    then have e: "escape_char d = 0x5C # 0x75 # hex4 d"
      by (auto simp: escape_char_def)
    from bmp have "decode_uXXXX (hex4 d @ t) = Some d" by (simp add: decode_hex4)
    with assms e show ?thesis by (simp add: low_escape_ahead_def)
  next
    case astral
    define h where "h = 0xD800 + ((d - 0x10000) div 1024) mod 1024"
    define l where "l = 0xDC00 + (d - 0x10000) mod 1024"
    from astral have e: "escape_char d = 0x5C # 0x75 # hex4 h @ 0x5C # 0x75 # hex4 l"
      by (simp add: escape_char_def h_def l_def)
    have h: "h < 65536" "\<not> is_low_surrogate h"
      by (simp_all add: is_low_surrogate_def h_def)
    have "decode_uXXXX (hex4 h @ 0x5C # 0x75 # hex4 l @ t) = Some h"
      using h(1) by (rule decode_hex4)
    with assms h(2) show ?thesis by (simp add: low_escape_ahead_def e)
  qed
qed

lemma scan_string_escaped:
  "str_ok s \<Longrightarrow> scan_string (concat (map escape_char s) @ 0x22 # rest) = Some (s, rest)"
proof (induction s rule: str_ok.induct)
  case 1
  show ?case by simp
next
  case (2 c)
  have "\<not> low_escape_ahead (0x22 # rest)" by (simp add: low_escape_ahead_def)
  with 2 scan_string_escape_char [of c "0x22 # rest"] show ?case by simp
next
  case (3 c d s)
  let ?t = "concat (map escape_char (d # s)) @ 0x22 # rest"
  from 3 have ih: "scan_string ?t = Some (d # s, rest)" by simp
  have "\<not> (is_high_surrogate c \<and> low_escape_ahead ?t)"
    using 3(2) low_escape_ahead_escape_char [of d "concat (map escape_char s) @ 0x22 # rest"]
    by auto
  with 3(2) scan_string_escape_char [of c ?t] ih show ?case by simp
qed

lemma scan_string_encode_string:
  "str_ok s \<Longrightarrow> scan_string (tl (encode_string s) @ rest) = Some (s, rest)"
  by (simp add: encode_string_def scan_string_escaped)

subsection \<open>Numbers: digits and the pieces of a literal\<close>

declare digits_of.simps [simp del]

lemma is_digit_of_digit: "d < 10 \<Longrightarrow> is_digit (0x30 + d)"
  by (simp add: is_digit_def)

lemma digits_of_all_digits: "list_all is_digit (digits_of n)"
proof (induction n rule: digits_of.induct)
  case (1 n)
  then show ?case
    by (subst digits_of.simps) (simp add: is_digit_of_digit)
qed

lemma digits_of_not_Nil [simp]: "digits_of n \<noteq> []"
  by (subst digits_of.simps) simp

lemma digits_of_hd: "0 < n \<Longrightarrow> 0x31 \<le> hd (digits_of n) \<and> hd (digits_of n) \<le> 0x39"
proof (induction n rule: digits_of.induct)
  case (1 n)
  show ?case
  proof (cases "n < 10")
    case True
    with 1(2) show ?thesis by (subst (1 2) digits_of.simps) simp
  next
    case False
    with 1 have "0x31 \<le> hd (digits_of (n div 10)) \<and> hd (digits_of (n div 10)) \<le> 0x39"
      by simp
    with False show ?thesis by (subst (1 2) digits_of.simps) simp
  qed
qed

lemma digits_of_zero: "digits_of 0 = [0x30]"
  by (subst digits_of.simps) simp

lemma nat_of_digits_append:
  "nat_of_digits acc (xs @ ys) = nat_of_digits (nat_of_digits acc xs) ys"
  by (induction xs arbitrary: acc) auto

lemma nat_of_digits_digits_of: "nat_of_digits 0 (digits_of n) = n"
  by (induction n rule: digits_of.induct)
     (subst digits_of.simps, auto simp: nat_of_digits_append)

lemma no_digit_ahead_simps [simp]:
  "no_digit_ahead []" "no_digit_ahead (c # t) = (\<not> is_digit c)"
  by (simp_all add: no_digit_ahead_def)

lemma number_stop_simps [simp]:
  "number_stop []"
  "number_stop (c # t) = (\<not> is_digit c \<and> c \<noteq> 0x2E \<and> c \<noteq> 0x65 \<and> c \<noteq> 0x45)"
  by (simp_all add: number_stop_def)

lemma number_stop_no_digit: "number_stop t \<Longrightarrow> no_digit_ahead t"
  by (cases t) simp_all

lemma takeWhile_digits_ahead:
  "no_digit_ahead t \<Longrightarrow> takeWhile is_digit (takeWhile is_digit xs @ t) = takeWhile is_digit xs"
  by (induction xs) (auto simp: no_digit_ahead_def split: list.splits)

lemma dropWhile_digits_ahead:
  "no_digit_ahead t \<Longrightarrow> dropWhile is_digit (takeWhile is_digit xs @ t) = t"
  by (induction xs) (auto simp: no_digit_ahead_def split: list.splits)

lemma scan_int_part_lexeme:
  assumes "scan_int_part s = Some (ip, r)"
  shows "s = ip @ r \<and> ip \<noteq> [] \<and> is_digit (hd ip)
         \<and> (\<forall>t. no_digit_ahead t \<longrightarrow> scan_int_part (ip @ t) = Some (ip, t))"
  using assms
  by (auto simp: scan_int_part_def is_digit_def takeWhile_digits_ahead dropWhile_digits_ahead
           split: list.splits if_splits)

lemma ascii_text_simps [simp]:
  "ascii_text []" "ascii_text (c # s) = (c < 0x80 \<and> ascii_text s)"
  "ascii_text (s @ t) = (ascii_text s \<and> ascii_text t)"
  by (auto simp: ascii_text_def)

lemma takeWhile_digits_ascii [simp]: "ascii_text (takeWhile is_digit xs)"
  by (induction xs) (auto simp: is_digit_def)

lemma scan_int_part_ascii:
  "scan_int_part s = Some (ip, r) \<Longrightarrow> ascii_text ip"
  by (auto simp: scan_int_part_def split: list.splits if_splits)

lemma scan_frac_ascii: "scan_frac s = (fr, r) \<Longrightarrow> ascii_text fr"
  by (auto simp: scan_frac_def is_digit_def split: list.splits if_splits)

lemma frac_stop_simps [simp]:
  "frac_stop []" "frac_stop (c # t) = (\<not> is_digit c \<and> c \<noteq> 0x2E)"
  by (simp_all add: frac_stop_def)

lemma frac_stop_no_digit: "frac_stop t \<Longrightarrow> no_digit_ahead t"
  by (cases t) simp_all

lemma number_stop_frac_stop: "number_stop t \<Longrightarrow> frac_stop t"
  by (cases t) simp_all

lemma scan_frac_stop: "frac_stop t \<Longrightarrow> scan_frac t = ([], t)"
  by (auto simp: scan_frac_def split: list.splits)

lemma scan_exp_stop: "number_stop t \<Longrightarrow> scan_exp t = ([], t)"
  by (auto simp: scan_exp_def split: list.splits)

lemma scan_frac_lexeme:
  assumes "scan_frac s = (fr, r)"
  shows "s = fr @ r \<and> (fr = [] \<or> hd fr = 0x2E)
         \<and> (\<forall>t. frac_stop t \<longrightarrow> scan_frac (fr @ t) = (fr, t))"
proof (cases "fr = []")
  case True
  with assms have "s = r"
    by (auto simp: scan_frac_def split: list.splits if_splits)
  with True show ?thesis by (simp add: scan_frac_stop)
next
  case False
  with assms obtain d r0 where s: "s = 0x2E # d # r0" and d: "is_digit d"
    and fr: "fr = 0x2E # d # takeWhile is_digit r0" and r: "r = dropWhile is_digit r0"
    by (auto simp: scan_frac_def split: list.splits if_splits)
  have "scan_frac (fr @ t) = (fr, t)" if "frac_stop t" for t
    using frac_stop_no_digit [OF that] d
    by (simp add: fr scan_frac_def takeWhile_digits_ahead dropWhile_digits_ahead)
  with s fr r show ?thesis by simp
qed

lemma scan_exp_cases:
  assumes "scan_exp s = (ex, r)"
  obtains (none) "ex = []" "r = s"
  | (unsigned) c d r1 where "c = 0x65 \<or> c = 0x45" "is_digit d" "s = c # d # r1"
      "ex = c # d # takeWhile is_digit r1" "r = dropWhile is_digit r1"
  | (signed) c g d r2 where "c = 0x65 \<or> c = 0x45" "g = 0x2B \<or> g = 0x2D" "is_digit d"
      "s = c # g # d # r2" "ex = c # g # d # takeWhile is_digit r2" "r = dropWhile is_digit r2"
proof (cases s)
  case Nil
  with assms none show ?thesis by (simp add: scan_exp_def)
next
  case s: (Cons c r0)
  show ?thesis
  proof (cases "c = 0x65 \<or> c = 0x45")
    case False
    with assms s none show ?thesis by (simp add: scan_exp_def)
  next
    case c: True
    show ?thesis
    proof (cases r0)
      case Nil
      with assms s c none show ?thesis by (auto simp: scan_exp_def)
    next
      case r0: (Cons d r1)
      show ?thesis
      proof (cases "d = 0x2B \<or> d = 0x2D")
        case g: True
        show ?thesis
        proof (cases r1)
          case Nil
          with assms s c r0 g none show ?thesis by (auto simp: scan_exp_def)
        next
          case r1: (Cons d1 r2)
          show ?thesis
          proof (cases "is_digit d1")
            case True
            with assms s c r0 g r1 signed [of c d d1 r2] show ?thesis
              by (auto simp: scan_exp_def)
          next
            case False
            with assms s c r0 g r1 none show ?thesis by (auto simp: scan_exp_def)
          qed
        qed
      next
        case ng: False
        show ?thesis
        proof (cases "is_digit d")
          case True
          with assms s c r0 ng unsigned [of c d r1] show ?thesis
            by (auto simp: scan_exp_def)
        next
          case False
          with assms s c r0 ng none show ?thesis by (auto simp: scan_exp_def)
        qed
      qed
    qed
  qed
qed

lemma scan_exp_lexeme:
  assumes "scan_exp s = (ex, r)"
  shows "s = ex @ r \<and> (ex = [] \<or> hd ex = 0x65 \<or> hd ex = 0x45)
         \<and> (\<forall>t. number_stop t \<longrightarrow> scan_exp (ex @ t) = (ex, t))"
  using assms
proof (cases rule: scan_exp_cases)
  case none
  then show ?thesis by (simp add: scan_exp_stop)
next
  case (unsigned c d r1)
  have "scan_exp (ex @ t) = (ex, t)" if "number_stop t" for t
    using number_stop_no_digit [OF that] unsigned(1,2)
    by (auto simp: unsigned(4) scan_exp_def takeWhile_digits_ahead dropWhile_digits_ahead
                   is_digit_def)
  with unsigned show ?thesis by auto
next
  case (signed c g d r2)
  have "scan_exp (ex @ t) = (ex, t)" if "number_stop t" for t
    using number_stop_no_digit [OF that] signed(1,2,3)
    by (auto simp: signed(5) scan_exp_def takeWhile_digits_ahead dropWhile_digits_ahead)
  with signed show ?thesis by auto
qed

lemma scan_exp_ascii:
  assumes "scan_exp s = (ex, r)"
  shows "ascii_text ex"
  using assms
  by (cases rule: scan_exp_cases) (auto simp: is_digit_def)

subsection \<open>Numbers: the literal that \<open>scan_number\<close> matches\<close>

lemma scan_number_lexeme:
  assumes "scan_number s = Some (tok, r)"
  shows "\<exists>lexeme. s = lexeme @ r \<and> lexeme \<noteq> []
           \<and> (hd lexeme = 0x2D \<or> is_digit (hd lexeme))
           \<and> ascii_text lexeme
           \<and> (\<forall>f. tok = TFloat f \<longrightarrow> f = lexeme)
           \<and> (\<forall>t. number_stop t \<longrightarrow> scan_number (lexeme @ t) = Some (tok, t))"
proof -
  define sgn where "sgn = (if s \<noteq> [] \<and> hd s = 0x2D then [0x2D::nat] else [])"
  define s1 where "s1 = (if s \<noteq> [] \<and> hd s = 0x2D then tl s else s)"
  have split: "(case s of [] \<Rightarrow> ([], s) | c # r \<Rightarrow> if c = 0x2D then ([c], r) else ([], s))
               = (sgn, s1)"
    by (cases s) (auto simp: sgn_def s1_def)
  have s: "s = sgn @ s1"
    by (cases s) (auto simp: sgn_def s1_def)
  from assms split obtain ip s2 where ip: "scan_int_part s1 = Some (ip, s2)"
    by (auto simp: scan_number_def split: option.splits)
  obtain fr s3 where fr: "scan_frac s2 = (fr, s3)" by (cases "scan_frac s2")
  obtain ex s4 where ex: "scan_exp s3 = (ex, s4)" by (cases "scan_exp s3")
  from assms split ip fr ex have r: "r = s4"
    and tok: "tok = (if fr = [] \<and> ex = []
                     then TInt (if sgn = [] then int (nat_of_digits 0 ip)
                                else - int (nat_of_digits 0 ip))
                     else TFloat (sgn @ ip @ fr @ ex))"
    by (auto simp: scan_number_def split: if_splits)
  note I = scan_int_part_lexeme [OF ip]
  note F = scan_frac_lexeme [OF fr]
  note E = scan_exp_lexeme [OF ex]
  let ?lexeme = "sgn @ ip @ fr @ ex"
  have 1: "s = ?lexeme @ r" using s I F E r by simp
  have 2: "?lexeme \<noteq> []" using I by simp
  have 3: "hd ?lexeme = 0x2D \<or> is_digit (hd ?lexeme)"
    using I by (auto simp: sgn_def)
  have 4: "\<forall>f. tok = TFloat f \<longrightarrow> f = ?lexeme" using tok by auto
  have 5: "scan_number (?lexeme @ t) = Some (tok, t)" if t: "number_stop t" for t
  proof -
    have hd_ip: "hd ip \<noteq> 0x2D" using I by (auto simp: is_digit_def)
    have split': "(case ?lexeme @ t of [] \<Rightarrow> ([], ?lexeme @ t)
                   | c # r \<Rightarrow> if c = 0x2D then ([c], r) else ([], ?lexeme @ t))
                  = (sgn, ip @ fr @ ex @ t)"
      using I hd_ip by (cases ip) (auto simp: sgn_def)
    have stop_e: "frac_stop (ex @ t)"
      using E number_stop_frac_stop [OF t] by (cases ex) (auto simp: is_digit_def)
    have stop_f: "no_digit_ahead (fr @ ex @ t)"
      using F frac_stop_no_digit [OF stop_e]
      by (cases fr) (auto simp: is_digit_def)
    have i: "scan_int_part (ip @ fr @ ex @ t) = Some (ip, fr @ ex @ t)"
      using I stop_f by simp
    have f: "scan_frac (fr @ ex @ t) = (fr, ex @ t)"
      using F stop_e by simp
    have e: "scan_exp (ex @ t) = (ex, t)"
      using E t by simp
    show ?thesis
      unfolding scan_number_def split' by (simp add: i f e tok)
  qed
  have 6: "ascii_text ?lexeme"
    using scan_int_part_ascii [OF ip] scan_frac_ascii [OF fr] scan_exp_ascii [OF ex]
    by (simp add: sgn_def)
  from 1 2 3 4 5 6 show ?thesis by blast
qed

lemma scan_number_TFloat:
  assumes "scan_number s = Some (TFloat f, r)"
  shows "json_number f"
proof -
  from scan_number_lexeme [OF assms] obtain lexeme where
    "\<forall>f'. TFloat f = TFloat f' \<longrightarrow> f' = lexeme"
    "\<forall>t. number_stop t \<longrightarrow> scan_number (lexeme @ t) = Some (TFloat f, t)"
    by blast
  then have "f = lexeme" and "number_stop [] \<longrightarrow> scan_number (lexeme @ []) = Some (TFloat f, [])"
    by blast+
  then show ?thesis by (simp add: json_number_def)
qed

lemma scan_number_extend:
  assumes "scan_number s = Some (tok, [])" and "number_stop t"
  shows "scan_number (s @ t) = Some (tok, t)"
proof -
  from scan_number_lexeme [OF assms(1)] obtain lexeme where
    "s = lexeme @ []"
    "\<forall>t. number_stop t \<longrightarrow> scan_number (lexeme @ t) = Some (tok, t)"
    by blast
  then have "s = lexeme" and "number_stop t \<longrightarrow> scan_number (lexeme @ t) = Some (tok, t)"
    by simp_all
  with assms(2) show ?thesis by simp
qed

lemma scan_int_part_digits_of: "scan_int_part (digits_of n) = Some (digits_of n, [])"
proof (cases "n = 0")
  case True
  then show ?thesis by (simp add: digits_of_zero scan_int_part_def)
next
  case False
  obtain c ds where cd: "digits_of n = c # ds"
    by (cases "digits_of n") simp_all
  with digits_of_all_digits [of n] have ds: "list_all is_digit ds" by simp
  then have "takeWhile is_digit ds = ds" "dropWhile is_digit ds = []"
    by (simp_all add: list_all_iff)
  moreover from False digits_of_hd [of n] cd have "0x31 \<le> c \<and> c \<le> 0x39" by simp
  ultimately show ?thesis by (simp add: cd scan_int_part_def)
qed

lemma scan_number_digits_of: "scan_number (digits_of n) = Some (TInt (int n), [])"
proof -
  have "hd (digits_of n) \<noteq> 0x2D"
    using digits_of_all_digits [of n] by (cases "digits_of n") (auto simp: is_digit_def)
  then have "(case digits_of n of [] \<Rightarrow> ([], digits_of n)
              | c # r \<Rightarrow> if c = 0x2D then ([c], r) else ([], digits_of n))
             = ([], digits_of n)"
    by (cases "digits_of n") auto
  then show ?thesis
    unfolding scan_number_def
    by (simp add: scan_int_part_digits_of scan_frac_def scan_exp_def nat_of_digits_digits_of)
qed

lemma scan_number_int_repr: "scan_number (int_repr i) = Some (TInt i, [])"
proof (cases "i < 0")
  case True
  then show ?thesis
    unfolding scan_number_def int_repr_def
    by (simp add: scan_int_part_digits_of scan_frac_def scan_exp_def nat_of_digits_digits_of)
next
  case False
  then show ?thesis by (simp add: int_repr_def scan_number_digits_of)
qed

lemma json_number_ascii: "json_number f \<Longrightarrow> ascii_text f"
proof -
  assume "json_number f"
  then have f: "scan_number f = Some (TFloat f, [])" by (simp add: json_number_def)
  from scan_number_lexeme [OF f] obtain lexeme where
    "f = lexeme @ []" "ascii_text lexeme" by blast
  then show ?thesis by simp
qed

lemma digits_of_ascii: "ascii_text (digits_of n)"
  using digits_of_all_digits [of n] by (auto simp: list_all_iff ascii_text_def is_digit_def)

lemma int_repr_ascii: "ascii_text (int_repr i)"
  by (simp add: int_repr_def digits_of_ascii)

subsection \<open>Tokens of the scalar values\<close>

lemma then_lex_Nil [simp]: "then_lex [] t = lex t"
  by (simp add: then_lex_def option.map_ident)

lemma then_lex_append: "map_option (\<lambda>r. ts @ r) (then_lex us t) = then_lex (ts @ us) t"
  by (simp add: then_lex_def option.map_comp comp_def)

lemma then_lex_Cons: "map_option (Cons x) (then_lex us t) = then_lex (x # us) t"
  by (simp add: then_lex_def option.map_comp comp_def)

lemma lex_ws: "list_all is_ws ws \<Longrightarrow> lex (ws @ t) = lex t"
  by (induction ws) auto

lemma lex_newline_indent [simp]: "lex (newline_indent k @ t) = lex t"
  by (rule lex_ws) (simp add: newline_indent_def is_ws_def list_all_iff)

lemma lex_number:
  assumes "s \<noteq> []" and "hd s = 0x2D \<or> is_digit (hd s)"
    and "scan_number (s @ t) = Some (tok, t)"
  shows "lex (s @ t) = map_option (Cons tok) (lex t)"
proof -
  obtain c r where s: "s = c # r" using assms(1) by (cases s) auto
  with assms(2) have c: "c = 0x2D \<or> is_digit c" by simp
  then show ?thesis
    using assms(3)
    by (auto simp: s is_ws_def is_digit_def starts_with_def ascii_def)
qed

lemma lex_int: "number_stop t \<Longrightarrow> lex (int_repr i @ t) = then_lex [TInt i] t"
proof -
  assume t: "number_stop t"
  from scan_number_lexeme [OF scan_number_int_repr [of i]]
  have "int_repr i \<noteq> []" "hd (int_repr i) = 0x2D \<or> is_digit (hd (int_repr i))"
    by auto
  from lex_number [OF this scan_number_extend [OF scan_number_int_repr t]]
  show ?thesis by (simp add: then_lex_def)
qed

lemma lex_float:
  assumes "float_ok f" and "number_stop t"
  shows "lex (f @ t) = then_lex [TFloat f] t"
proof (cases "json_number f")
  case True
  then have f: "scan_number f = Some (TFloat f, [])" by (simp add: json_number_def)
  from scan_number_lexeme [OF f]
  have "f \<noteq> []" "hd f = 0x2D \<or> is_digit (hd f)" by auto
  from lex_number [OF this scan_number_extend [OF f assms(2)]]
  show ?thesis by (simp add: then_lex_def)
next
  case False
  with assms(1) consider "f = ascii ''NaN''" | "f = ascii ''Infinity''" | "f = ascii ''-Infinity''"
    by (auto simp: float_ok_def)
  then show ?thesis
    by cases
       (simp_all add: then_lex_def ascii_def is_ws_def starts_with_def scan_number_def
                      scan_int_part_def)
qed

lemma lex_string:
  "str_ok s \<Longrightarrow> lex (encode_string s @ t) = then_lex [TStr s] t"
  using scan_string_escaped [of s t]
  by (simp add: encode_string_def then_lex_def is_ws_def)

subsection \<open>Tokens of the text of a value\<close>

lemma number_stop_newline_indent [simp]: "number_stop (newline_indent k @ t)"
  by (simp add: newline_indent_def is_digit_def)

lemma lex_join:
  assumes "\<And>x t. x \<in> set xs \<Longrightarrow> number_stop t \<Longrightarrow> lex (f x @ t) = then_lex (g x) t"
    and "xs \<noteq> []" and "number_stop u"
  shows "lex (join (0x2C # newline_indent k) (map f xs) @ u)
         = then_lex (join [TComma] (map g xs)) u"
  using assms
proof (induction xs rule: induct_list012)
  case 1
  then show ?case by simp
next
  case (2 x)
  then show ?case by simp
next
  case (3 x y zs)
  let ?rest = "join (0x2C # newline_indent k) (map f (y # zs)) @ u"
  have ih: "lex ?rest = then_lex (join [TComma] (map g (y # zs))) u"
    using 3 by simp
  have stop: "number_stop (0x2C # newline_indent k @ ?rest)"
    by (simp add: is_digit_def)
  have "lex (f x @ 0x2C # newline_indent k @ ?rest)
        = then_lex (g x) (0x2C # newline_indent k @ ?rest)"
    using 3(3) [of x, OF _ stop] by simp
  also have "\<dots> = map_option (\<lambda>r. g x @ r) (map_option (Cons TComma) (lex ?rest))"
    by (simp add: then_lex_def is_ws_def)
  also have "\<dots> = then_lex (g x @ TComma # join [TComma] (map g (y # zs))) u"
    unfolding ih by (simp add: then_lex_def option.map_comp comp_def)
  finally show ?case by simp
qed

lemma lex_container:
  assumes "\<And>x t. x \<in> set xs \<Longrightarrow> number_stop t \<Longrightarrow> lex (f x @ t) = then_lex (g x) t"
    and "xs \<noteq> []"
    and "lex (cl # t) = map_option (Cons ctok) (lex t)"
  shows "lex (newline_indent (Suc l) @ join (0x2C # newline_indent (Suc l)) (map f xs)
              @ newline_indent l @ cl # t)
         = then_lex (join [TComma] (map g xs) @ [ctok]) t"
proof -
  have close: "lex (newline_indent l @ cl # t) = map_option (Cons ctok) (lex t)"
    using assms(3) by (simp only: lex_newline_indent)
  have "lex (join (0x2C # newline_indent (Suc l)) (map f xs) @ newline_indent l @ cl # t)
        = then_lex (join [TComma] (map g xs)) (newline_indent l @ cl # t)"
    by (rule lex_join [OF assms(1,2)]) simp_all
  also have "\<dots> = then_lex (join [TComma] (map g xs) @ [ctok]) t"
    unfolding then_lex_def close by (cases "lex t") simp_all
  finally show ?thesis by (simp only: lex_newline_indent)
qed

lemma lex_dumps_at:
  "json_ok v \<Longrightarrow> number_stop t \<Longrightarrow> lex (dumps_at l v @ t) = then_lex (toks v) t"
proof (induction v arbitrary: l t)
  case JNull
  then show ?case by (simp add: then_lex_def ascii_def is_ws_def starts_with_def)
next
  case (JBool b)
  then show ?case by (simp add: then_lex_def ascii_def is_ws_def starts_with_def)
next
  case (JInt i)
  then show ?case by (simp add: lex_int)
next
  case (JFloat f)
  then show ?case by (simp add: lex_float)
next
  case (JStr s)
  then show ?case by (simp add: lex_string)
next
  case (JList xs)
  show ?case
  proof (cases "xs = []")
    case True
    then show ?thesis by (cases "lex t") (simp_all add: then_lex_def ascii_def is_ws_def)
  next
    case False
    have item: "lex (dumps_at (Suc l) x @ t) = then_lex (toks x) t"
      if "x \<in> set xs" "number_stop t" for x t
      using JList.IH [OF that(1) _ that(2)] JList.prems(1) that(1)
      by (simp add: list_all_iff)
    have "lex (newline_indent (Suc l)
               @ join (0x2C # newline_indent (Suc l)) (map (dumps_at (Suc l)) xs)
               @ newline_indent l @ 0x5D # t)
          = then_lex (join [TComma] (map toks xs) @ [TRBrack]) t"
      by (rule lex_container [OF item False]) (simp_all add: is_ws_def)
    with False show ?thesis
      by (simp add: ascii_def is_ws_def then_lex_Cons)
  qed
next
  case (JObj kvs)
  show ?case
  proof (cases "kvs = []")
    case True
    then show ?thesis by (cases "lex t") (simp_all add: then_lex_def ascii_def is_ws_def)
  next
    case False
    let ?f = "\<lambda>kv. encode_string (fst kv) @ ascii '': '' @ dumps_at (Suc l) (snd kv)"
    let ?g = "\<lambda>kv. TStr (fst kv) # TColon # toks (snd kv)"
    have item: "lex (?f kv @ t) = then_lex (?g kv) t"
      if kv: "kv \<in> set kvs" and t: "number_stop t" for kv t
    proof -
      from JObj.prems(1) kv have ok: "str_ok (fst kv)" "json_ok (snd kv)"
        by (auto simp: list_all_iff)
      have v: "lex (dumps_at (Suc l) (snd kv) @ t) = then_lex (toks (snd kv)) t"
        using JObj.IH [of kv "snd kv", OF kv _ ok(2) t] by (cases kv) simp
      have "lex (?f kv @ t)
            = then_lex [TStr (fst kv)] (ascii '': '' @ dumps_at (Suc l) (snd kv) @ t)"
        using lex_string [OF ok(1)] by simp
      also have "\<dots> = then_lex (?g kv) t"
        by (simp add: then_lex_def ascii_def is_ws_def v option.map_comp comp_def)
      finally show ?thesis .
    qed
    have "lex (newline_indent (Suc l)
               @ join (0x2C # newline_indent (Suc l)) (map ?f kvs)
               @ newline_indent l @ 0x7D # t)
          = then_lex (join [TComma] (map ?g kvs) @ [TRBrace]) t"
      by (rule lex_container [OF item False]) (simp_all add: is_ws_def)
    with False show ?thesis
      by (simp add: ascii_def is_ws_def then_lex_Cons split_def)
  qed
qed

subsection \<open>The decoder on the tokens of a value\<close>

lemma run_append:
  "run (a @ b) st = (case run a st of None \<Rightarrow> None | Some st' \<Rightarrow> run b st')"
  by (induction a arbitrary: st) (auto split: option.splits)

lemma dict_set_fresh: "k \<notin> fst ` set kvs \<Longrightarrow> dict_set kvs k v = kvs @ [(k, v)]"
  by (induction kvs) auto

lemma run_items:
  assumes "\<And>x m stk. x \<in> set xs \<Longrightarrow> value_mode m \<Longrightarrow>
             run (toks x) (Parsing m stk) = put_value x stk"
    and "xs \<noteq> []" and "value_mode m"
  shows "run (join [TComma] (map toks xs)) (Parsing m (FList acc # stk))
         = Some (Parsing AfterValue (FList (acc @ xs) # stk))"
  using assms
proof (induction xs arbitrary: acc m rule: induct_list012)
  case 1
  then show ?case by simp
next
  case (2 x)
  then show ?case by simp
next
  case (3 x y zs)
  have "run (join [TComma] (map toks (y # zs))) (Parsing ExpectValue (FList (acc @ [x]) # stk))
        = Some (Parsing AfterValue (FList ((acc @ [x]) @ y # zs) # stk))"
    using 3(2) [where acc = "acc @ [x]" and m = ExpectValue] 3(3) by (simp add: value_mode_def)
  moreover have "run (toks x) (Parsing m (FList acc # stk))
                 = Some (Parsing AfterValue (FList (acc @ [x]) # stk))"
    using 3(3) [of x m] 3(5) by simp
  ultimately show ?case by (simp add: run_append)
qed

lemma run_members:
  assumes "\<And>kv m stk. kv \<in> set kvs \<Longrightarrow> value_mode m \<Longrightarrow>
             run (toks (snd kv)) (Parsing m stk) = put_value (snd kv) stk"
    and "kvs \<noteq> []" and "key_mode m" and "distinct (map fst (acc @ kvs))"
  shows "run (join [TComma] (map (\<lambda>kv. TStr (fst kv) # TColon # toks (snd kv)) kvs))
           (Parsing m (FObj acc # stk))
         = Some (Parsing AfterValue (FObj (acc @ kvs) # stk))"
  using assms
proof (induction kvs arbitrary: acc m rule: induct_list012)
  case 1
  then show ?case by simp
next
  case (2 kv)
  have "run (toks (snd kv)) (Parsing ExpectValue (FKey acc (fst kv) # stk))
        = put_value (snd kv) (FKey acc (fst kv) # stk)"
    using 2(1) [of kv ExpectValue] by (simp add: value_mode_def)
  moreover have "dict_set acc (fst kv) (snd kv) = acc @ [kv]"
    using 2(4) by (simp add: dict_set_fresh)
  ultimately show ?case
    using 2(3) by (auto simp: key_mode_def)
next
  case (3 kv y zs)
  have v: "run (toks (snd kv)) (Parsing ExpectValue (FKey acc (fst kv) # stk))
        = put_value (snd kv) (FKey acc (fst kv) # stk)"
    using 3(3) [of kv ExpectValue] by (simp add: value_mode_def)
  have d: "dict_set acc (fst kv) (snd kv) = acc @ [kv]"
    using 3(6) by (simp add: dict_set_fresh)
  have first: "run (TStr (fst kv) # TColon # toks (snd kv)) (Parsing m (FObj acc # stk))
               = Some (Parsing AfterValue (FObj (acc @ [kv]) # stk))"
    using 3(5) v d by (auto simp: key_mode_def)
  have rest: "run (join [TComma] (map (\<lambda>kv. TStr (fst kv) # TColon # toks (snd kv)) (y # zs)))
                (Parsing ExpectKey (FObj (acc @ [kv]) # stk))
              = Some (Parsing AfterValue (FObj ((acc @ [kv]) @ y # zs) # stk))"
    using 3(2) [where acc = "acc @ [kv]" and m = ExpectKey] 3(3) 3(6) by (simp add: key_mode_def)
  have "run ((TStr (fst kv) # TColon # toks (snd kv))
             @ TComma # join [TComma] (map (\<lambda>kv. TStr (fst kv) # TColon # toks (snd kv)) (y # zs)))
          (Parsing m (FObj acc # stk))
        = Some (Parsing AfterValue (FObj ((acc @ [kv]) @ y # zs) # stk))"
    unfolding run_append first using rest by simp
  then show ?case by simp
qed

lemma run_toks:
  "json_ok v \<Longrightarrow> value_mode m \<Longrightarrow> run (toks v) (Parsing m stk) = put_value v stk"
proof (induction v arbitrary: m stk)
  case (JList xs)
  show ?case
  proof (cases "xs = []")
    case True
    with JList.prems show ?thesis by (auto simp: value_mode_def split: option.splits)
  next
    case False
    have "run (join [TComma] (map toks xs)) (Parsing ExpectValueOrClose (FList [] # stk))
          = Some (Parsing AfterValue (FList ([] @ xs) # stk))"
    proof (rule run_items [OF _ False])
      fix x m stk
      assume "x \<in> set xs" "value_mode m"
      with JList.IH [of x m stk] JList.prems(1)
      show "run (toks x) (Parsing m stk) = put_value x stk"
        by (simp add: list_all_iff)
    qed (simp add: value_mode_def)
    with JList.prems(2) show ?thesis
      by (auto simp: value_mode_def run_append split: option.splits)
  qed
next
  case (JObj kvs)
  show ?case
  proof (cases "kvs = []")
    case True
    with JObj.prems show ?thesis by (auto simp: value_mode_def split: option.splits)
  next
    case False
    have "run (join [TComma] (map (\<lambda>kv. TStr (fst kv) # TColon # toks (snd kv)) kvs))
            (Parsing ExpectKeyOrClose (FObj [] # stk))
          = Some (Parsing AfterValue (FObj ([] @ kvs) # stk))"
    proof (rule run_members [OF _ False])
      fix kv m stk
      assume "kv \<in> set kvs" "value_mode m"
      with JObj.IH [of kv "snd kv" m stk] JObj.prems(1)
      show "run (toks (snd kv)) (Parsing m stk) = put_value (snd kv) stk"
        by (cases kv) (auto simp: list_all_iff)
    next
      show "distinct (map fst ([] @ kvs))" using JObj.prems(1) by simp
    qed (simp add: key_mode_def)
    with JObj.prems(2) show ?thesis
      by (auto simp: value_mode_def run_append split: option.splits)
  qed
qed (auto simp: value_mode_def split: option.splits)

lemma parse_tokens_toks: "json_ok v \<Longrightarrow> parse_tokens (toks v) = Some v"
  by (simp add: parse_tokens_def run_toks value_mode_def)

lemma json_loads_json_dumps: "json_ok v \<Longrightarrow> json_loads (json_dumps v) = Some v"
  using lex_dumps_at [of v "[]" 0]
  by (simp add: json_loads_def json_dumps_def then_lex_def parse_tokens_toks)

subsection \<open>The bytes of the file\<close>

lemma utf8_decode_nat_ascii: "ascii_text s \<Longrightarrow> utf8_decode_nat s = Some s"
  by (induction s) auto

lemma utf8_decode_encode_ascii:
  assumes "ascii_text s"
  shows "utf8_decode (encode_ascii s) = Some s"
proof -
  have "map of_char (map char_of s) = s"
    using assms by (induction s) auto
  with assms show ?thesis
    by (simp add: utf8_decode_def encode_ascii_def utf8_decode_nat_ascii)
qed

lemma hexdigit_ascii: "d < 16 \<Longrightarrow> hexdigit d < 0x80"
  by (simp add: hexdigit_def)

lemma hex4_ascii: "ascii_text (hex4 n)"
  by (simp add: hex4_def hexdigit_ascii)

lemma escape_char_ascii: "ascii_text (escape_char c)"
  by (simp add: escape_char_def hex4_ascii)

lemma encode_string_ascii: "ascii_text (encode_string s)"
  by (induction s) (simp_all add: encode_string_def escape_char_ascii)

lemma join_ascii:
  "ascii_text sep \<Longrightarrow> list_all ascii_text xs \<Longrightarrow> ascii_text (join sep xs)"
  by (induction sep xs rule: join.induct) auto

lemma newline_indent_ascii: "ascii_text (newline_indent k)"
  by (simp add: newline_indent_def ascii_text_def)

lemma float_ok_ascii: "float_ok f \<Longrightarrow> ascii_text f"
  by (auto simp: float_ok_def json_number_ascii ascii_def)

lemma dumps_at_ascii: "json_ok v \<Longrightarrow> ascii_text (dumps_at l v)"
proof (induction v arbitrary: l)
  case (JList xs)
  have "list_all ascii_text (map (dumps_at (Suc l)) xs)"
    using JList by (auto simp: list_all_iff)
  then show ?case
    by (simp add: ascii_def newline_indent_ascii join_ascii)
next
  case (JObj kvs)
  have "list_all ascii_text
          (map (\<lambda>(k, v). encode_string k @ ascii '': '' @ dumps_at (Suc l) v) kvs)"
    using JObj by (fastforce simp: list_all_iff encode_string_ascii ascii_def)
  then show ?case
    by (simp add: ascii_def newline_indent_ascii join_ascii)
qed (simp_all add: ascii_def int_repr_ascii encode_string_ascii float_ok_ascii)

lemma read_json_save_data:
  "json_ok v \<Longrightarrow> read_json p (save_data p v w) = Inr v"
  using json_loads_json_dumps [of v] dumps_at_ascii [of v 0]
  by (simp add: read_json_def save_data_def json_dumps_def utf8_decode_encode_ascii)

lemma load_data_save_data:
  "json_ok (JList xs) \<Longrightarrow>
   load_data p (save_data p (JList xs) w) = (Inr xs, save_data p (JList xs) w)"
  using read_json_save_data [of "JList xs" p w]
  by (simp add: load_data_def) (simp add: save_data_def)

subsection \<open>The UTF-8 decoder returns scalar values\<close>

lemma scalar_text_simps [simp]:
  "scalar_text []" "scalar_text (c # s) = (is_scalar c \<and> scalar_text s)"
  "scalar_text (s @ t) = (scalar_text s \<and> scalar_text t)"
  by (auto simp: scalar_text_def)

lemma scalar_text_drop: "scalar_text s \<Longrightarrow> scalar_text (drop n s)"
  by (auto simp: scalar_text_def dest: in_set_dropD)

lemma utf8_decode_nat_scalar:
  "\<forall>b \<in> set bs. b < 256 \<Longrightarrow> utf8_decode_nat bs = Some s \<Longrightarrow> scalar_text s"
proof (induction "length bs" arbitrary: bs s rule: less_induct)
  case less
  show ?case
  proof (cases bs)
    case Nil
    with less.prems show ?thesis by simp
  next
    case (Cons b0 bs')
    consider (one) "b0 < 0x80"
      | (two) "0xC2 \<le> b0" "b0 \<le> 0xDF"
      | (three) "0xE0 \<le> b0" "b0 \<le> 0xEF"
      | (four) "0xF0 \<le> b0" "b0 \<le> 0xF4"
      | (bad) "0x80 \<le> b0" "b0 < 0xC2 \<or> 0xF4 < b0"
      by linarith
    then show ?thesis
    proof cases
      case one
      with less.prems Cons obtain s' where r: "utf8_decode_nat bs' = Some s'" and s: "s = b0 # s'"
        by auto
      from less.hyps [of bs' s'] less.prems(1) Cons r have "scalar_text s'" by simp
      with one show ?thesis by (simp add: s is_scalar_def)
    next
      case two
      with less.prems Cons obtain b1 r s' where bs: "bs' = b1 # r" and b1: "is_cont b1"
        and r: "utf8_decode_nat r = Some s'"
        and s: "s = ((b0 - 0xC0) * 64 + (b1 - 0x80)) # s'"
        by (auto split: list.splits if_splits)
      from two b1 have "is_scalar ((b0 - 0xC0) * 64 + (b1 - 0x80))"
        unfolding is_scalar_def is_cont_def by linarith
      moreover from less.hyps [of r s'] less.prems(1) Cons bs r have "scalar_text s'"
        by simp
      ultimately show ?thesis by (simp add: s)
    next
      case three
      with less.prems Cons obtain b1 b2 r s' where bs: "bs' = b1 # b2 # r"
        and b1: "(if b0 = 0xE0 then 0xA0 else 0x80) \<le> b1"
                "b1 \<le> (if b0 = 0xED then 0x9F else 0xBF)" "is_cont b2"
        and r: "utf8_decode_nat r = Some s'"
        and s: "s = ((b0 - 0xE0) * 4096 + (b1 - 0x80) * 64 + (b2 - 0x80)) # s'"
        by (auto split: list.splits if_splits)
      from three b1 have "is_scalar ((b0 - 0xE0) * 4096 + (b1 - 0x80) * 64 + (b2 - 0x80))"
        unfolding is_scalar_def is_cont_def
        by (cases "b0 = 0xE0"; cases "b0 = 0xED"; simp; linarith)
      moreover from less.hyps [of r s'] less.prems(1) Cons bs r have "scalar_text s'"
        by simp
      ultimately show ?thesis by (simp add: s)
    next
      case four
      with less.prems Cons obtain b1 b2 b3 r s' where bs: "bs' = b1 # b2 # b3 # r"
        and b1: "(if b0 = 0xF0 then 0x90 else 0x80) \<le> b1"
                "b1 \<le> (if b0 = 0xF4 then 0x8F else 0xBF)" "is_cont b2" "is_cont b3"
        and r: "utf8_decode_nat r = Some s'"
        and s: "s = ((b0 - 0xF0) * 262144 + (b1 - 0x80) * 4096
                     + (b2 - 0x80) * 64 + (b3 - 0x80)) # s'"
        by (auto split: list.splits if_splits)
      from four b1 have "is_scalar ((b0 - 0xF0) * 262144 + (b1 - 0x80) * 4096
                     + (b2 - 0x80) * 64 + (b3 - 0x80))"
        unfolding is_scalar_def is_cont_def
        by (cases "b0 = 0xF0"; cases "b0 = 0xF4"; simp; linarith)
      moreover from less.hyps [of r s'] less.prems(1) Cons bs r have "scalar_text s'"
        by simp
      ultimately show ?thesis by (simp add: s)
    next
      case bad
      with less.prems Cons show ?thesis by auto
    qed
  qed
qed

lemma utf8_decode_scalar: "utf8_decode bytes = Some s \<Longrightarrow> scalar_text s"
proof -
  have "\<forall>b \<in> set (map of_char bytes). b < (256::nat)"
    by (auto simp: of_char_def intro: order_less_le_trans)
  then show "utf8_decode bytes = Some s \<Longrightarrow> scalar_text s"
    unfolding utf8_decode_def by (rule utf8_decode_nat_scalar)
qed

subsection \<open>\<open>scan_string\<close> returns a well-formed string\<close>

lemma hexval_lt: "hexval c = Some d \<Longrightarrow> d < 16"
  by (auto simp: hexval_def split: if_splits)

lemma decode_uXXXX_lt: "decode_uXXXX s = Some u \<Longrightarrow> u < 65536"
proof -
  assume d: "decode_uXXXX s = Some u"
  then obtain x3 x2 x1 x0 where
    x: "x3 < 16" "x2 < 16" "x1 < 16" "x0 < 16"
    and u: "u = ((x3 * 16 + x2) * 16 + x1) * 16 + x0"
    by (auto simp: decode_uXXXX_def split: list.splits option.splits dest!: hexval_lt)
  define a where "a = x3 * 16 + x2"
  define b where "b = a * 16 + x1"
  from x have "a < 256" unfolding a_def by linarith
  with x have "b < 4096" unfolding b_def by linarith
  with x have "b * 16 + x0 < 65536" by linarith
  then show ?thesis unfolding u b_def a_def .
qed

lemma str_ok_Cons:
  "str_ok (c # s)
   = (c < 0x110000 \<and> (s \<noteq> [] \<longrightarrow> \<not> (is_high_surrogate c \<and> is_low_surrogate (hd s)))
      \<and> str_ok s)"
  by (cases s) auto

lemma scan_string_ok:
  assumes "scalar_text s" and "scan_string s = Some (str, r)"
  shows "str_ok str \<and> scalar_text r
         \<and> (str \<noteq> [] \<and> is_low_surrogate (hd str) \<longrightarrow> low_escape_ahead s)"
  using assms
proof (induction "length s" arbitrary: s str r rule: less_induct)
  case less
  show ?case
  proof (cases s)
    case Nil
    with less.prems show ?thesis by simp
  next
    case s: (Cons c s0)
    from less.prems(1) s have sc: "is_scalar c" "scalar_text s0" by simp_all
    consider (quote) "c = 0x22"
      | (escape) "c = 0x5C"
      | (control) "c \<noteq> 0x22" "c \<noteq> 0x5C" "c < 0x20"
      | (raw) "c \<noteq> 0x22" "c \<noteq> 0x5C" "\<not> c < 0x20"
      by blast
    then show ?thesis
    proof cases
      case quote
      with less.prems s sc show ?thesis by simp
    next
      case control
      with less.prems s show ?thesis by simp
    next
      case raw
      with less.prems s obtain str' where
        r: "scan_string s0 = Some (str', r)" and str: "str = c # str'"
        by auto
      from less.hyps [of s0 str' r] s sc r
      have ih: "str_ok str'" "scalar_text r" by simp_all
      from sc(1) have c: "c < 0x110000" "\<not> is_high_surrogate c" "\<not> is_low_surrogate c"
        by (auto simp: is_scalar_def is_high_surrogate_def is_low_surrogate_def)
      with ih show ?thesis by (simp add: str str_ok_Cons)
    next
      case escape
      with less.prems s obtain e s1 where s0: "s0 = e # s1"
        by (cases s0) auto
      from sc s0 have sc1: "scalar_text s1" by simp
      show ?thesis
      proof (cases "e = 0x75")
        case False
        with less.prems s escape s0 obtain ch str' where
          ch: "unescape e = Some ch"
          and r: "scan_string s1 = Some (str', r)" and str: "str = ch # str'"
          by (auto split: option.splits)
        from less.hyps [of s1 str' r] s s0 sc1 r
        have ih: "str_ok str'" "scalar_text r" by simp_all
        from ch have "ch < 0x80"
          by (auto simp: unescape_def split: if_splits)
        then have c: "ch < 0x110000" "\<not> is_high_surrogate ch" "\<not> is_low_surrogate ch"
          by (auto simp: is_high_surrogate_def is_low_surrogate_def)
        with ih show ?thesis by (simp add: str str_ok_Cons)
      next
        case u: True
        with less.prems s escape s0 obtain uni where uni: "decode_uXXXX s1 = Some uni"
          by (auto split: option.splits)
        note lt = decode_uXXXX_lt [OF uni]
        let ?pair = "if is_high_surrogate uni \<and> take 2 (drop 4 s1) = [0x5C, 0x75]
                     then decode_uXXXX (drop 6 s1) else None"
        have ahead: "low_escape_ahead (drop 4 s1)
                     = (take 2 (drop 4 s1) = [0x5C, 0x75]
                        \<and> (\<exists>v. decode_uXXXX (drop 6 s1) = Some v \<and> is_low_surrogate v))"
          by (auto simp: low_escape_ahead_def split: option.splits)
        show ?thesis
        proof (cases "\<exists>v. ?pair = Some v \<and> is_low_surrogate v")
          case True
          then obtain v where v: "?pair = Some v" "is_low_surrogate v" by blast
          then have high: "is_high_surrogate uni" by (auto split: if_splits)
          from v high have dv: "decode_uXXXX (drop 6 s1) = Some v" by (auto split: if_splits)
          from less.prems(2) s escape s0 u uni v obtain str' where
            r: "scan_string (drop 10 s1) = Some (str', r)"
            and str: "str = (0x10000 + ((uni - 0xD800) * 1024 + (v - 0xDC00))) # str'"
            by auto
          from less.hyps [of "drop 10 s1" str' r] s s0 scalar_text_drop [OF sc1] r
          have ih: "str_ok str'" "scalar_text r" by simp_all
          let ?c = "0x10000 + ((uni - 0xD800) * 1024 + (v - 0xDC00))"
          from high v(2) have "?c < 0x110000"
            unfolding is_high_surrogate_def is_low_surrogate_def by linarith
          moreover have "\<not> is_high_surrogate ?c" "\<not> is_low_surrogate ?c"
            by (simp_all add: is_high_surrogate_def is_low_surrogate_def)
          ultimately show ?thesis using ih by (simp add: str str_ok_Cons)
        next
          case False
          with less.prems(2) s escape s0 u uni obtain str' where
            r: "scan_string (drop 4 s1) = Some (str', r)" and str: "str = uni # str'"
            by (cases ?pair) auto
          from less.hyps [of "drop 4 s1" str' r] s s0 scalar_text_drop [OF sc1] r
          have ih: "str_ok str'" "scalar_text r"
            "str' \<noteq> [] \<and> is_low_surrogate (hd str') \<longrightarrow> low_escape_ahead (drop 4 s1)"
            by simp_all
          have "\<not> (is_high_surrogate uni \<and> low_escape_ahead (drop 4 s1))"
            using False unfolding ahead by auto
          with ih(3) have "str' \<noteq> [] \<longrightarrow> \<not> (is_high_surrogate uni \<and> is_low_surrogate (hd str'))"
            by blast
          moreover have "is_low_surrogate uni \<longrightarrow> low_escape_ahead s"
            using uni by (simp add: low_escape_ahead_def s escape s0 u)
          ultimately show ?thesis using ih(1,2) lt by (simp add: str str_ok_Cons)
        qed
      qed
    qed
  qed
qed

subsection \<open>The decoder returns a well-formed value\<close>

lemma scan_number_token:
  "scan_number s = Some (tok, r) \<Longrightarrow> (\<exists>i. tok = TInt i) \<or> (\<exists>f. tok = TFloat f)"
  by (auto simp: scan_number_def Let_def split: prod.splits option.splits if_splits)

lemma scan_number_ok:
  assumes "scalar_text s" and "scan_number s = Some (tok, r)"
  shows "tok_ok tok \<and> scalar_text r"
proof -
  from scan_number_lexeme [OF assms(2)] obtain lexeme where "s = lexeme @ r" by blast
  with assms(1) have "scalar_text r" by simp
  moreover have "tok_ok tok"
    using scan_number_TFloat [of s _ r] scan_number_token [OF assms(2)] assms(2)
    by (auto simp: float_ok_def)
  ultimately show ?thesis by simp
qed

lemma lex_step:
  assumes "scalar_text (c # s)" and "lex (c # s) = Some ts"
  shows "\<exists>r pre ts'. lex r = Some ts' \<and> scalar_text r \<and> length r < length (c # s)
                      \<and> ts = pre @ ts' \<and> list_all tok_ok pre"
proof -
  from assms(1) have sc: "scalar_text s" by simp
  have simple: ?thesis if "lex r = Some ts'" "ts = pre @ ts'" "list_all tok_ok pre"
    "scalar_text r" "length r \<le> length s" for r pre ts'
    using that by (intro exI [of _ r] exI [of _ pre] exI [of _ ts']) simp
  have dropped: "scalar_text (drop n s)" "length (drop n s) \<le> length s" for n
    using sc by (simp_all add: scalar_text_drop)
  consider (ws) "is_ws c"
    | (punct) "\<not> is_ws c" "c = 0x7B \<or> c = 0x7D \<or> c = 0x5B \<or> c = 0x5D \<or> c = 0x2C \<or> c = 0x3A"
    | (quote) "\<not> is_ws c" "c = 0x22"
    | (other) "\<not> is_ws c" "c \<noteq> 0x22"
        "\<not> (c = 0x7B \<or> c = 0x7D \<or> c = 0x5B \<or> c = 0x5D \<or> c = 0x2C \<or> c = 0x3A)"
    by blast
  then show ?thesis
  proof cases
    case ws
    with assms(2) have "lex s = Some ts" by simp
    then show ?thesis by (intro simple [of s _ "[]"]) (simp_all add: sc)
  next
    case punct
    with assms(2) obtain tok ts' where "lex s = Some ts'" "ts = [tok] @ ts'" "tok_ok tok"
      by auto
    then show ?thesis by (intro simple [of s _ "[tok]"]) (simp_all add: sc)
  next
    case quote
    with assms(2) obtain str r ts' where r: "scan_string s = Some (str, r)"
      and l: "lex r = Some ts'" and ts: "ts = [TStr str] @ ts'"
      by (auto simp: is_ws_def split: option.splits)
    from scan_string_ok [OF sc r] scan_string_shorter [OF r] l ts
    show ?thesis by (intro simple [of r _ "[TStr str]"]) simp_all
  next
    case other
    show ?thesis
    proof (cases "starts_with (ascii ''null'') (c # s) \<or> starts_with (ascii ''true'') (c # s)
                  \<or> starts_with (ascii ''false'') (c # s)")
      case True
      with other assms(2) obtain n tok ts' where "lex (drop n s) = Some ts'"
        "ts = [tok] @ ts'" "tok_ok tok"
        by (auto split: if_splits)
      then show ?thesis
        by (intro simple [of "drop n s" _ "[tok]"]) (simp_all add: dropped)
    next
      case word: False
      show ?thesis
      proof (cases "scan_number (c # s)")
        case (Some a)
        obtain tok r where a: "a = (tok, r)" by (cases a)
        with Some other word assms(2) obtain ts' where l: "lex r = Some ts'"
          and ts: "ts = [tok] @ ts'"
          by auto
        from scan_number_ok [OF assms(1)] scan_number_shorter [of "c # s" tok r] Some a l ts
        show ?thesis
          by (intro exI [of _ r] exI [of _ "[tok]"] exI [of _ ts']) simp
      next
        case None
        with other word assms(2) obtain n f ts' where "lex (drop n s) = Some ts'"
          "ts = [TFloat f] @ ts'" "float_ok f"
          by (auto simp: float_ok_def split: if_splits)
        then show ?thesis
          by (intro simple [of "drop n s" _ "[TFloat f]"]) (simp_all add: dropped)
      qed
    qed
  qed
qed

lemma lex_ok: "scalar_text s \<Longrightarrow> lex s = Some ts \<Longrightarrow> list_all tok_ok ts"
proof (induction "length s" arbitrary: s ts rule: less_induct)
  case less
  show ?case
  proof (cases s)
    case Nil
    with less.prems show ?thesis by simp
  next
    case (Cons c s0)
    from lex_step [of c s0 ts] less.prems Cons obtain r pre ts' where
      "lex r = Some ts'" "scalar_text r" "length r < length s" "ts = pre @ ts'"
      "list_all tok_ok pre"
      by auto
    with less.hyps [of r ts'] show ?thesis by simp
  qed
qed

lemma map_fst_dict_set:
  "map fst (dict_set kvs k v)
   = (if k \<in> fst ` set kvs then map fst kvs else map fst kvs @ [k])"
  by (induction kvs) (force+)

lemma dict_set_ok:
  assumes "json_ok (JObj kvs)" and "str_ok k" and "json_ok v"
  shows "json_ok (JObj (dict_set kvs k v))"
proof -
  have "list_all (\<lambda>kv. str_ok (fst kv) \<and> json_ok (snd kv)) (dict_set kvs k v)"
    using assms by (induction kvs) auto
  moreover have "distinct (map fst (dict_set kvs k v))"
    using assms(1) by (simp add: map_fst_dict_set)
  ultimately show ?thesis by simp
qed

lemma put_value_ok:
  "json_ok v \<Longrightarrow> list_all frame_ok stk \<Longrightarrow> put_value v stk = Some st \<Longrightarrow> state_ok st"
  by (induction v stk rule: put_value.induct) (auto simp: dict_set_ok simp del: json_ok.simps(4))

lemma value_token_ok:
  "value_token t stk = Some st \<Longrightarrow> tok_ok t \<Longrightarrow> list_all frame_ok stk \<Longrightarrow> state_ok st"
  by (cases t) (auto dest: put_value_ok [rotated 2])

lemma key_token_ok:
  "key_token t stk = Some st \<Longrightarrow> tok_ok t \<Longrightarrow> list_all frame_ok stk \<Longrightarrow> state_ok st"
  by (induction t stk rule: key_token.induct) auto

lemma step_ok:
  assumes "tok_ok t" and "state_ok st" and "step t st = Some st'"
  shows "state_ok st'"
proof (cases st)
  case (Finished v)
  with assms show ?thesis by simp
next
  case (Parsing m stk)
  with assms(2) have stk: "list_all frame_ok stk" by simp
  show ?thesis
  proof (cases m)
    case ExpectValue
    with assms Parsing stk show ?thesis by (auto dest: value_token_ok)
  next
    case ExpectValueOrClose
    with assms Parsing stk show ?thesis
      by (auto split: token.splits list.splits frame.splits
               dest: value_token_ok put_value_ok [rotated 2])
  next
    case ExpectKey
    with assms Parsing stk show ?thesis by (auto dest: key_token_ok)
  next
    case ExpectKeyOrClose
    with assms Parsing stk show ?thesis
      by (auto split: token.splits list.splits frame.splits simp del: json_ok.simps(4)
               dest: key_token_ok put_value_ok [rotated 2])
  next
    case ExpectColon
    with assms Parsing stk show ?thesis by (auto split: token.splits)
  next
    case AfterValue
    with assms Parsing stk show ?thesis
      by (auto split: token.splits list.splits frame.splits simp del: json_ok.simps(4)
               dest: put_value_ok [rotated 2])
  qed
qed

lemma run_ok:
  "list_all tok_ok ts \<Longrightarrow> state_ok st \<Longrightarrow> run ts st = Some st' \<Longrightarrow> state_ok st'"
  by (induction ts arbitrary: st) (auto split: option.splits dest: step_ok)

lemma json_loads_ok:
  assumes "scalar_text s" and "json_loads s = Some v"
  shows "json_ok v"
proof -
  from assms(2) obtain ts where ts: "lex s = Some ts" and p: "parse_tokens ts = Some v"
    by (auto simp: json_loads_def split: option.splits)
  from p have "run ts (Parsing ExpectValue []) = Some (Finished v)"
    by (auto simp: parse_tokens_def split: option.splits pstate.splits)
  from run_ok [OF lex_ok [OF assms(1) ts] _ this] show ?thesis by simp
qed

lemma read_json_ok: "read_json p w = Inr v \<Longrightarrow> json_ok v"
  by (auto simp: read_json_def split: option.splits
           dest!: utf8_decode_scalar intro: json_loads_ok)

lemma load_data_ok: "load_data p w = (Inr xs, w1) \<Longrightarrow> json_ok (JList xs)"
  using read_json_ok [of p w "JList xs"]
  by (auto simp: load_data_def split: sum.splits json.splits if_splits)

section \<open>Save, then load\<close>

lemma save_data_any_json_of: "save_data_any p v w = save_data p (json_of v) w"
  by (simp add: save_data_any_def save_data_def)

lemma json_of_py_of: "json_of (py_of v) = v"
proof (induction v)
  case (JObj kvs)
  have "\<forall>kv \<in> set kvs. (fst kv, json_of (py_of (snd kv))) = kv"
  proof
    fix kv assume kv: "kv \<in> set kvs"
    have "snd kv \<in> Basic_BNFs.snds kv" by (cases kv) simp
    then show "(fst kv, json_of (py_of (snd kv))) = kv"
      using JObj.IH [OF kv] by (cases kv) simp
  qed
  then show ?case by (simp add: comp_def map_idI)
qed (simp_all add: map_idI)

lemma save_data_any_py_of: "save_data_any p (py_of v) w = save_data p v w"
  by (simp add: save_data_any_json_of json_of_py_of)











section \<open>Delete, then get\<close>

text \<open>
  C10. When every stored record has a \<open>name\<close> field, \<open>delete_hotel\<close> returns, and
  \<open>get_hotel\<close> of the same name then returns \<open>{}\<close>.
\<close>

theorem delete_then_get:
  assumes "load_data HOTEL_FILE w = (Inr stored, w1)"
    and "list_all (has_field (ascii ''name'')) stored"
  shows "fst (delete_hotel nm w) = Inr ()
         \<and> get_hotel nm (snd (delete_hotel nm w)) = (Inr (JObj []), snd (delete_hotel nm w))"
proof -
  let ?kept = "filter (\<lambda>h. field (ascii ''name'') h \<noteq> Some (JStr nm)) stored"
  let ?w2 = "save_data HOTEL_FILE (JList ?kept) w1"
  from assms have d: "delete_hotel nm w = (Inr (), ?w2)"
    by (simp add: delete_hotel_def comprehension_field_differs)
  from load_data_ok [OF assms(1)] have "json_ok (JList ?kept)"
    by (simp add: list_all_iff)
  then have l: "load_data HOTEL_FILE ?w2 = (Inr ?kept, ?w2)"
    by (rule load_data_save_data)
  from assms(2) have "list_all (has_field (ascii ''name''))
                        (takeWhile (\<lambda>h. field (ascii ''name'') h \<noteq> Some (JStr nm)) ?kept)"
    by (auto simp: list_all_iff dest: set_takeWhileD)
  moreover have "find (\<lambda>h. field (ascii ''name'') h = Some (JStr nm)) ?kept = None"
    by (simp add: find_None_iff)
  ultimately have "first_with (ascii ''name'') nm ?kept = Inr (JObj [])"
    by (simp add: first_with_find)
  with d l show ?thesis by (simp add: get_hotel_def)
qed

text \<open>
  C10 on three stored hotels, two of them named \<open>A\<close>: \<open>get_hotel\<close> finds the first
  before the deletion and nothing after it.
\<close>

theorem delete_then_get_witness:
  \<open>load_data HOTEL_FILE
      (with_file HOTEL_FILE ''[{"name": "A", "rooms": 1.5}, {"name": "B"}, {"name": "A"}]'' world0)
     = (Inr [JObj [(ascii ''name'', JStr (ascii ''A'')), (ascii ''rooms'', JFloat (ascii ''1.5''))],
             JObj [(ascii ''name'', JStr (ascii ''B''))],
             JObj [(ascii ''name'', JStr (ascii ''A''))]],
        with_file HOTEL_FILE ''[{"name": "A", "rooms": 1.5}, {"name": "B"}, {"name": "A"}]'' world0)
   \<and> fst (get_hotel (ascii ''A'')
         (with_file HOTEL_FILE ''[{"name": "A", "rooms": 1.5}, {"name": "B"}, {"name": "A"}]'' world0))
     = Inr (JObj [(ascii ''name'', JStr (ascii ''A'')), (ascii ''rooms'', JFloat (ascii ''1.5''))])
   \<and> fst (delete_hotel (ascii ''A'')
         (with_file HOTEL_FILE ''[{"name": "A", "rooms": 1.5}, {"name": "B"}, {"name": "A"}]'' world0))
     = Inr ()
   \<and> fst (get_hotel (ascii ''A'')
         (snd (delete_hotel (ascii ''A'')
            (with_file HOTEL_FILE ''[{"name": "A", "rooms": 1.5}, {"name": "B"}, {"name": "A"}]''
               world0))))
     = Inr (JObj [])\<close>
proof -
  let ?w = \<open>with_file HOTEL_FILE ''[{"name": "A", "rooms": 1.5}, {"name": "B"}, {"name": "A"}]'' world0\<close>
  let ?a = "JObj [(ascii ''name'', JStr (ascii ''A'')), (ascii ''rooms'', JFloat (ascii ''1.5''))]"
  let ?b = "JObj [(ascii ''name'', JStr (ascii ''B''))]"
  let ?a' = "JObj [(ascii ''name'', JStr (ascii ''A''))]"
  have l: "load_data HOTEL_FILE ?w = (Inr [?a, ?b, ?a'], ?w)"
    by (simp add: eval_defs)
  have h: "list_all (has_field (ascii ''name'')) [?a, ?b, ?a']"
    by (simp add: has_field_def field_def)
  have g: "fst (get_hotel (ascii ''A'') ?w) = Inr ?a"
    by (simp add: l get_hotel_def field_def subscript_field ascii_def)
  from delete_then_get [OF l h, of "ascii ''A''"]
  have "fst (delete_hotel (ascii ''A'') ?w) = Inr ()"
    and "fst (get_hotel (ascii ''A'') (snd (delete_hotel (ascii ''A'') ?w))) = Inr (JObj [])"
    by simp_all
  with l g show ?thesis by (simp only: simp_thms)
qed

end
